theory Spec2Isabelle
  imports Main "HOL-Library.Word" "HOL-Library.Char_ord" "HOL-Library.List_Lexorder"
    "HOL-Library.Sublist"
begin

unbundle bit_operations_syntax

section \<open>Wide-character buffers\<close>

text \<open>
  A \<^verbatim>\<open>wchar_t\<close> on the target platform is a 16-bit code unit. A native path buffer
  (\<^verbatim>\<open>git_win32_path\<close>, an array of \<^verbatim>\<open>wchar_t\<close>) is the list of its code units; a
  pointer into the buffer is an index. The C string held by a buffer ends at its
  first NUL; the list may be cut anywhere after that NUL, so a read at or
  beyond the end of the list reads NUL.
\<close>

type_synonym wchar = "16 word"

definition NUL :: wchar where "NUL = 0"
definition SLASH :: wchar where "SLASH = 0x2F"
definition BSLASH :: wchar where "BSLASH = 0x5C"
definition DOT :: wchar where "DOT = 0x2E"
definition COLON :: wchar where "COLON = 0x3A"
definition QMARK :: wchar where "QMARK = 0x3F"

definition L :: "string \<Rightarrow> wchar list" where
  "L s = map of_char s"

definition at :: "wchar list \<Rightarrow> nat \<Rightarrow> wchar" where
  "at p i = (if i < length p then p ! i else NUL)"

definition wcslen :: "wchar list \<Rightarrow> nat" where
  "wcslen p = length (takeWhile (\<lambda>c. c \<noteq> NUL) p)"

definition c_str :: "wchar list \<Rightarrow> wchar list" where
  "c_str p = takeWhile (\<lambda>c. c \<noteq> NUL) p"

text \<open>\<^verbatim>\<open>wcsncmp(a + i, b + j, n)\<close> of the C library: at most \<open>n\<close> units are compared,
  and the comparison stops after a NUL.\<close>

fun wcsncmp :: "wchar list \<Rightarrow> nat \<Rightarrow> wchar list \<Rightarrow> nat \<Rightarrow> nat \<Rightarrow> int" where
  "wcsncmp a i b j 0 = 0"
| "wcsncmp a i b j (Suc n) =
     (if at a i \<noteq> at b j then (if at a i < at b j then - 1 else 1)
      else if at a i = NUL then 0
      else wcsncmp a (i + 1) b (j + 1) n)"

text \<open>\<^verbatim>\<open>memmove(p + to, p + from, len)\<close>: the units are copied as if through a
  temporary array, so overlapping ranges are safe.\<close>

definition memmove :: "wchar list \<Rightarrow> nat \<Rightarrow> nat \<Rightarrow> nat \<Rightarrow> wchar list" where
  "memmove p to from len =
     map (\<lambda>i. if to \<le> i \<and> i < to + len then at p (from + (i - to)) else p ! i) [0..<length p]"

section \<open>Prefix classification\<close>

definition PATH__NT_NAMESPACE_LEN :: nat where "PATH__NT_NAMESPACE_LEN = 4"
definition PATH__ABSOLUTE_LEN :: nat where "PATH__ABSOLUTE_LEN = 3"

definition path__is_dirsep :: "wchar \<Rightarrow> bool" where
  "path__is_dirsep c \<longleftrightarrow> c = SLASH \<or> c = BSLASH"

text \<open>Modelled from the spec: \<^verbatim>\<open>git__isalpha\<close> is declared outside the files at hand;
  the drive-absolute pattern is "letter, colon, separator", so it accepts the
  ASCII letters.\<close>

definition git__isalpha :: "wchar \<Rightarrow> bool" where
  "git__isalpha c \<longleftrightarrow> (0x41 \<le> c \<and> c \<le> 0x5A) \<or> (0x61 \<le> c \<and> c \<le> 0x7A)"

definition path__is_absolute :: "wchar list \<Rightarrow> nat \<Rightarrow> bool" where
  "path__is_absolute p i \<longleftrightarrow>
     git__isalpha (at p i) \<and> at p (i + 1) = COLON \<and>
     (at p (i + 2) = BSLASH \<or> at p (i + 2) = SLASH)"

definition path__is_nt_namespace :: "wchar list \<Rightarrow> nat \<Rightarrow> bool" where
  "path__is_nt_namespace p i \<longleftrightarrow>
     (at p i = BSLASH \<and> at p (i + 1) = BSLASH \<and> at p (i + 2) = QMARK \<and> at p (i + 3) = BSLASH) \<or>
     (at p i = SLASH \<and> at p (i + 1) = SLASH \<and> at p (i + 2) = QMARK \<and> at p (i + 3) = SLASH)"

definition path__is_unc :: "wchar list \<Rightarrow> nat \<Rightarrow> bool" where
  "path__is_unc p i \<longleftrightarrow>
     (at p i = BSLASH \<and> at p (i + 1) = BSLASH) \<or> (at p i = SLASH \<and> at p (i + 1) = SLASH)"

definition UNC_lit :: "wchar list" where
  "UNC_lit = [0x55, 0x4E, 0x43, BSLASH]"

lemma at_nonzero_less: "at p i \<noteq> NUL \<Longrightarrow> i < length p"
  by (simp add: at_def split: if_splits)

function path__skip_server :: "wchar list \<Rightarrow> nat \<Rightarrow> nat" where
  "path__skip_server p c =
     (if at p c = NUL then c
      else if path__is_dirsep (at p c) then c + 1
      else path__skip_server p (c + 1))"
  by pat_completeness auto
termination
  by (relation "measure (\<lambda>(p, c). length p - c)") (auto dest: at_nonzero_less)

definition path__skip_prefix :: "wchar list \<Rightarrow> nat" where
  "path__skip_prefix p =
     (if path__is_nt_namespace p 0 then
        (if wcsncmp p PATH__NT_NAMESPACE_LEN UNC_lit 0 4 = 0
         then path__skip_server p (PATH__NT_NAMESPACE_LEN + 4)
         else if path__is_absolute p PATH__NT_NAMESPACE_LEN
         then PATH__NT_NAMESPACE_LEN + PATH__ABSOLUTE_LEN
         else PATH__NT_NAMESPACE_LEN)
      else if path__is_absolute p 0 then PATH__ABSOLUTE_LEN
      else if path__is_unc p 0 then path__skip_server p 2
      else 0)"

section \<open>In-place canonicalization\<close>

text \<open>The loop \<^verbatim>\<open>for (from = path; from < to; from++)\<close> that rewrites the separators
  of the prefix; it returns the buffer and the final value of \<^verbatim>\<open>from\<close>.\<close>

function unposix_prefix :: "wchar list \<Rightarrow> nat \<Rightarrow> nat \<Rightarrow> wchar list \<times> nat" where
  "unposix_prefix p from to =
     (if from < to
      then unposix_prefix (if at p from = SLASH then p[from := BSLASH] else p) (from + 1) to
      else (p, from))"
  by pat_completeness auto
termination
  by (relation "measure (\<lambda>(p, from, to). to - from)") auto

text \<open>The inner loop \<^verbatim>\<open>for (next = from; *next; ++next)\<close>: it stops at the end of the
  string or at the first separator, which it rewrites to a backslash.\<close>

function scan_next :: "wchar list \<Rightarrow> nat \<Rightarrow> wchar list \<times> nat" where
  "scan_next p next =
     (if at p next = NUL then (p, next)
      else if at p next = SLASH then (p[next := BSLASH], next)
      else if at p next = BSLASH then (p, next)
      else scan_next p (next + 1))"
  by pat_completeness auto
termination
  by (relation "measure (\<lambda>(p, next). length p - next)") (auto dest: at_nonzero_less)

text \<open>\<^verbatim>\<open>while (to > base && to[-1] == L'\\') to--;\<close>\<close>

function back_seps :: "wchar list \<Rightarrow> nat \<Rightarrow> nat \<Rightarrow> nat" where
  "back_seps p base to =
     (if to > base \<and> at p (to - 1) = BSLASH then back_seps p base (to - 1) else to)"
  by pat_completeness auto
termination
  by (relation "measure (\<lambda>(p, base, to). to)") auto

text \<open>\<^verbatim>\<open>while (to > base && to[-1] != L'\\') to--;\<close>\<close>

function back_segment :: "wchar list \<Rightarrow> nat \<Rightarrow> nat \<Rightarrow> nat" where
  "back_segment p base to =
     (if to > base \<and> at p (to - 1) \<noteq> BSLASH then back_segment p base (to - 1) else to)"
  by pat_completeness auto
termination
  by (relation "measure (\<lambda>(p, base, to). to)") auto

text \<open>\<^verbatim>\<open>while (*from == L'\\') from++;\<close>\<close>

function skip_bslash :: "wchar list \<Rightarrow> nat \<Rightarrow> nat" where
  "skip_bslash p from = (if at p from = BSLASH then skip_bslash p (from + 1) else from)"
  by pat_completeness auto
termination
  by (relation "measure (\<lambda>(p, from). length p - from)")
     (auto simp: at_def BSLASH_def NUL_def split: if_splits)

text \<open>One iteration of \<^verbatim>\<open>while (*from)\<close>, on the state
  \<open>(path, base, from, to)\<close>.\<close>

definition canon_step :: "wchar list \<times> nat \<times> nat \<times> nat \<Rightarrow> wchar list \<times> nat \<times> nat \<times> nat" where
  "canon_step s =
     (case s of (p0, base, from, to) \<Rightarrow>
        (case scan_next p0 from of (p, next) \<Rightarrow>
           let len = next - from in
           if len = 1 \<and> at p from = DOT then
             (p, base, skip_bslash p (from + len), to)
           else if len = 2 \<and> at p from = DOT \<and> at p (from + 1) = DOT then
             (if to = base then
                let len' = (if at p next = BSLASH then len + 1 else len)
                in (p, to, skip_bslash p (from + len'), to)
              else
                let to1 = back_seps p base to;
                    to2 = back_segment p base to1
                in (p, base, skip_bslash p (from + len), to2))
           else
             let len' = (if at p next = BSLASH \<and> at p from \<noteq> BSLASH then len + 1 else len);
                 p' = (if to \<noteq> from then memmove p to from len' else p)
             in (p', base, skip_bslash p' (from + len'), to + len')))"

declare path__skip_server.simps [simp del] unposix_prefix.simps [simp del] scan_next.simps [simp del]
  back_seps.simps [simp del] back_segment.simps [simp del] skip_bslash.simps [simp del]

section \<open>Basic facts about the loops\<close>

lemma chars_distinct [simp]:
  "NUL \<noteq> SLASH" "NUL \<noteq> BSLASH" "NUL \<noteq> DOT" "SLASH \<noteq> BSLASH" "SLASH \<noteq> DOT" "BSLASH \<noteq> DOT"
  "SLASH \<noteq> NUL" "BSLASH \<noteq> NUL" "DOT \<noteq> NUL" "BSLASH \<noteq> SLASH" "DOT \<noteq> SLASH" "DOT \<noteq> BSLASH"
  by (simp_all add: NUL_def SLASH_def BSLASH_def DOT_def)

lemma at_beyond [simp]: "length p \<le> i \<Longrightarrow> at p i = NUL"
  by (simp add: at_def)

lemma at_update: "at (p[k := v]) i = (if i = k \<and> k < length p then v else at p i)"
  by (simp add: at_def)

lemma length_memmove [simp]: "length (memmove p to from len) = length p"
  by (simp add: memmove_def)

lemma memmove_0 [simp]: "memmove p to from 0 = p"
  by (rule nth_equalityI) (auto simp: memmove_def)

lemma at_memmove: "at (memmove p to from len) i =
  (if to \<le> i \<and> i < to + len \<and> i < length p then at p (from + (i - to)) else at p i)"
  by (simp add: memmove_def at_def)

lemma scan_next_spec:
  "scan_next p n = (q, k) \<Longrightarrow>
     n \<le> k \<and> (\<forall>i. n \<le> i \<and> i < k \<longrightarrow> at p i \<noteq> NUL \<and> at p i \<noteq> SLASH \<and> at p i \<noteq> BSLASH) \<and>
     (at p k = NUL \<or> at p k = SLASH \<or> at p k = BSLASH) \<and>
     q = (if at p k = SLASH then p[k := BSLASH] else p)"
proof (induction p n arbitrary: q k rule: scan_next.induct)
  case (1 p n)
  show ?case
  proof (cases "at p n = NUL \<or> at p n = SLASH \<or> at p n = BSLASH")
    case True
    with "1.prems" show ?thesis
      by (subst (asm) scan_next.simps) (auto split: if_splits)
  next
    case False
    with "1.prems" have r: "scan_next p (n + 1) = (q, k)"
      by (subst (asm) scan_next.simps) simp
    from "1.IH" [OF _ _ _ r] False
    have ih: "n + 1 \<le> k \<and> (\<forall>i. n + 1 \<le> i \<and> i < k \<longrightarrow> at p i \<noteq> NUL \<and> at p i \<noteq> SLASH \<and> at p i \<noteq> BSLASH) \<and>
     (at p k = NUL \<or> at p k = SLASH \<or> at p k = BSLASH) \<and>
     q = (if at p k = SLASH then p[k := BSLASH] else p)" by simp
    have "\<And>i. n \<le> i \<Longrightarrow> i = n \<or> n + 1 \<le> i" by arith
    with ih False show ?thesis by (metis add_leD1)
  qed
qed

lemma scan_next_length [simp]: "length (fst (scan_next p n)) = length p"
  using scan_next_spec [of p n "fst (scan_next p n)" "snd (scan_next p n)"] by (simp split: if_splits)

lemma skip_bslash_spec:
  "skip_bslash p i = k \<Longrightarrow> i \<le> k \<and> (\<forall>j. i \<le> j \<and> j < k \<longrightarrow> at p j = BSLASH) \<and> at p k \<noteq> BSLASH"
proof (induction p i arbitrary: k rule: skip_bslash.induct)
  case (1 p i)
  show ?case
  proof (cases "at p i = BSLASH")
    case True
    with "1.prems" have r: "skip_bslash p (i + 1) = k"
      by (subst (asm) skip_bslash.simps) simp
    from "1.IH" [OF True r] have ih: "i + 1 \<le> k \<and> (\<forall>j. i + 1 \<le> j \<and> j < k \<longrightarrow> at p j = BSLASH) \<and> at p k \<noteq> BSLASH" .
    have "\<And>j. i \<le> j \<Longrightarrow> j = i \<or> i + 1 \<le> j" by arith
    with ih True show ?thesis by (metis add_leD1)
  next
    case False
    with "1.prems" show ?thesis by (subst (asm) skip_bslash.simps) auto
  qed
qed

lemma skip_bslash_ge: "i \<le> skip_bslash p i"
  using skip_bslash_spec [where p = p and i = i, OF refl] by simp

lemma skip_bslash_gtI: "f < m \<Longrightarrow> f < skip_bslash r m"
  using skip_bslash_ge [of m r] by simp

lemma skip_bslash_gt: "at p i = BSLASH \<Longrightarrow> i < skip_bslash p i"
  using skip_bslash_ge [of "i + 1" p] by (subst skip_bslash.simps) simp

definition unposix :: "wchar \<Rightarrow> wchar" where
  "unposix c = (if c = SLASH then BSLASH else c)"

lemma unposix_prefix_spec:
  "unposix_prefix p f t = (q, f') \<Longrightarrow>
     f' = max f t \<and> length q = length p \<and>
     (\<forall>i. at q i = (if f \<le> i \<and> i < t then unposix (at p i) else at p i))"
proof (induction p f t arbitrary: q f' rule: unposix_prefix.induct)
  case (1 p f t)
  show ?case
  proof (cases "f < t")
    case True
    define p1 where "p1 = (if at p f = SLASH then p[f := BSLASH] else p)"
    from "1.prems" True have r: "unposix_prefix p1 (f + 1) t = (q, f')"
      by (subst (asm) unposix_prefix.simps) (simp add: p1_def)
    from "1.IH" [OF True r [unfolded p1_def], folded p1_def]
    have ih: "f' = max (f + 1) t" "length q = length p1"
      "\<And>i. at q i = (if f + 1 \<le> i \<and> i < t then unposix (at p1 i) else at p1 i)"
      by blast+
    have p1: "\<And>i. at p1 i = (if i = f then unposix (at p i) else at p i)"
      by (auto simp: p1_def at_update unposix_def dest: at_nonzero_less)
    have len: "length p1 = length p" by (simp add: p1_def)
    show ?thesis
      using ih(1,2) True len by (auto simp: ih(3) p1)
  next
    case False
    with "1.prems" show ?thesis
      by (subst (asm) unposix_prefix.simps) auto
  qed
qed

lemma back_seps_spec:
  "back_seps p b t = t' \<Longrightarrow>
     t' \<le> t \<and> (b \<le> t \<longrightarrow> b \<le> t') \<and> (\<forall>j. t' \<le> j \<and> j < t \<longrightarrow> at p j = BSLASH) \<and>
     (b < t' \<longrightarrow> at p (t' - 1) \<noteq> BSLASH)"
proof (induction p b t arbitrary: t' rule: back_seps.induct)
  case (1 p b t)
  show ?case
  proof (cases "t > b \<and> at p (t - 1) = BSLASH")
    case True
    with "1.prems" have r: "back_seps p b (t - 1) = t'"
      by (subst (asm) back_seps.simps) simp
    from "1.IH" [OF True r]
    have ih: "t' \<le> t - 1" "b \<le> t - 1 \<longrightarrow> b \<le> t'"
      "\<And>j. t' \<le> j \<Longrightarrow> j < t - 1 \<Longrightarrow> at p j = BSLASH"
      "b < t' \<longrightarrow> at p (t' - 1) \<noteq> BSLASH"
      by blast+
    have split: "\<And>j. j < t \<Longrightarrow> j < t - 1 \<or> j = t - 1" by arith
    from True ih(1,2) have "t' \<le> t" "b \<le> t \<longrightarrow> b \<le> t'" by arith+
    moreover have "\<forall>j. t' \<le> j \<and> j < t \<longrightarrow> at p j = BSLASH"
      using ih(3) split True by blast
    ultimately show ?thesis using ih(4) by blast
  next
    case False
    with "1.prems" show ?thesis
      by (subst (asm) back_seps.simps) auto
  qed
qed

lemma back_segment_spec:
  "back_segment p b t = t' \<Longrightarrow>
     t' \<le> t \<and> (b \<le> t \<longrightarrow> b \<le> t') \<and> (\<forall>j. t' \<le> j \<and> j < t \<longrightarrow> at p j \<noteq> BSLASH) \<and>
     (b < t' \<longrightarrow> at p (t' - 1) = BSLASH)"
proof (induction p b t arbitrary: t' rule: back_segment.induct)
  case (1 p b t)
  show ?case
  proof (cases "t > b \<and> at p (t - 1) \<noteq> BSLASH")
    case True
    with "1.prems" have r: "back_segment p b (t - 1) = t'"
      by (subst (asm) back_segment.simps) simp
    from "1.IH" [OF True r]
    have ih: "t' \<le> t - 1" "b \<le> t - 1 \<longrightarrow> b \<le> t'"
      "\<And>j. t' \<le> j \<Longrightarrow> j < t - 1 \<Longrightarrow> at p j \<noteq> BSLASH"
      "b < t' \<longrightarrow> at p (t' - 1) = BSLASH"
      by blast+
    have split: "\<And>j. j < t \<Longrightarrow> j < t - 1 \<or> j = t - 1" by arith
    from True ih(1,2) have "t' \<le> t" "b \<le> t \<longrightarrow> b \<le> t'" by arith+
    moreover have "\<forall>j. t' \<le> j \<and> j < t \<longrightarrow> at p j \<noteq> BSLASH"
      using ih(3) split True by blast
    ultimately show ?thesis using ih(4) by blast
  next
    case False
    with "1.prems" show ?thesis
      by (subst (asm) back_segment.simps) auto
  qed
qed

lemma canon_step_length: "canon_step (p, b, f, t) = (p', b', f', t') \<Longrightarrow> length p' = length p"
  unfolding canon_step_def
  by (auto split: prod.splits if_splits simp: Let_def dest: arg_cong [where f = "\<lambda>x. length (fst x)"])

lemma canon_step_advance:
  assumes "canon_step (p, b, f, t) = (p', b', f', t')" "at p f \<noteq> NUL"
  shows "f < f'"
proof -
  obtain q k where sn: "scan_next p f = (q, k)" by (cases "scan_next p f")
  note sp = scan_next_spec [OF sn]
  show ?thesis
  proof (cases "k = f")
    case True
    have "at q f = BSLASH"
      using sp assms(2) True by (auto simp: at_update dest: at_nonzero_less)
    then have "f < skip_bslash q f" by (rule skip_bslash_gt)
    with assms(1) sn True \<open>at q f = BSLASH\<close> show ?thesis
      by (auto simp: canon_step_def Let_def)
  next
    case False
    with sp have "f < k" by simp
    from assms(1) sn \<open>f < k\<close> show ?thesis
      by (auto simp: canon_step_def Let_def split: if_splits intro!: skip_bslash_gtI)
  qed
qed

text \<open>The loop \<^verbatim>\<open>while (*from)\<close>. Every iteration advances \<open>from\<close>, which never
  passes the terminator, so the loop terminates on every buffer.\<close>

function canon_loop :: "wchar list \<times> nat \<times> nat \<times> nat \<Rightarrow> wchar list \<times> nat \<times> nat \<times> nat" where
  "canon_loop (p, base, from, to) =
     (if at p from = NUL then (p, base, from, to)
      else canon_loop (canon_step (p, base, from, to)))"
  by pat_completeness auto
termination
proof (relation "measure (\<lambda>(p, base, from, to). length p - from)", goal_cases)
  case 1
  show ?case by simp
next
  case (2 p base "from" to)
  obtain p' b' f' t' where st: "canon_step (p, base, from, to) = (p', b', f', t')"
    by (cases "canon_step (p, base, from, to)")
  from canon_step_length [OF st] canon_step_advance [OF st 2] at_nonzero_less [OF 2]
  show ?case by (simp add: st)
qed

lemma canon_loop_rule:
  assumes "I s"
    and "\<And>p b f t. I (p, b, f, t) \<Longrightarrow> at p f \<noteq> NUL \<Longrightarrow> I (canon_step (p, b, f, t))"
  shows "I (canon_loop s)"
  using assms(1)
proof (induction s rule: canon_loop.induct)
  case (1 p b f t)
  then show ?case using assms(2) by auto
qed

lemma canon_loop_exit: "canon_loop s = (p, b, f, t) \<Longrightarrow> at p f = NUL"
proof (induction s rule: canon_loop.induct)
  case (1 p0 b0 f0 t0)
  then show ?case by (auto split: if_splits)
qed

text \<open>The function returns the new length \<^verbatim>\<open>to - path\<close>; the buffer, rewritten in
  place, is returned with it.\<close>

definition git_win32_path_canonicalize :: "wchar list \<Rightarrow> wchar list \<times> int" where
  "git_win32_path_canonicalize path =
     (let base = path__skip_prefix path in
      case unposix_prefix path 0 base of (p1, from) \<Rightarrow>
      case canon_loop (p1, base, from, base) of (p2, base', from', to) \<Rightarrow>
        let to' = back_seps p2 base' to
        in (p2[to' := NUL], int to'))"


section \<open>The loop invariant\<close>

lemma memmove_same [simp]: "memmove q t t len = q"
  by (rule nth_equalityI) (auto simp: memmove_def at_def)

lemma scan_next_at:
  "scan_next p f = (q, k) \<Longrightarrow> at q i = (if i = k then unposix (at p k) else at p i)"
  by (drule scan_next_spec) (auto simp: at_update unposix_def dest: at_nonzero_less)

lemma scan_next_range:
  "scan_next p f = (q, k) \<Longrightarrow>
     f \<le> k \<and> (\<forall>i. f \<le> i \<and> i < k \<longrightarrow> at p i \<noteq> NUL \<and> at p i \<noteq> SLASH \<and> at p i \<noteq> BSLASH) \<and>
     (at p k = NUL \<or> at p k = SLASH \<or> at p k = BSLASH)"
  by (drule scan_next_spec) blast

lemma scan_next_sep:
  "scan_next p f = (q, k) \<Longrightarrow> at q k = NUL \<or> at q k = BSLASH"
  by (frule scan_next_spec) (auto simp: scan_next_at unposix_def)

lemma canon_stepE:
  assumes "canon_step (p, b, f, t) = s'"
  obtains
    (dot) q k where "scan_next p f = (q, k)" "k = f + 1" "at q f = DOT"
      "s' = (q, b, skip_bslash q (f + 1), t)"
  | (dotdot_root) q k where "scan_next p f = (q, k)" "k = f + 2" "at q f = DOT" "at q (f + 1) = DOT"
      "t = b" "s' = (q, b, skip_bslash q (if at q k = BSLASH then k + 1 else k), t)"
  | (dotdot) q k where "scan_next p f = (q, k)" "k = f + 2" "at q f = DOT" "at q (f + 1) = DOT"
      "t \<noteq> b" "s' = (q, b, skip_bslash q k, back_segment q b (back_seps q b t))"
  | (copy) q k len where "scan_next p f = (q, k)"
      "\<not> (k = f + 1 \<and> at q f = DOT)" "\<not> (k = f + 2 \<and> at q f = DOT \<and> at q (f + 1) = DOT)"
      "len = (if at q k = BSLASH \<and> at q f \<noteq> BSLASH then k - f + 1 else k - f)"
      "s' = (memmove q t f len, b, skip_bslash (memmove q t f len) (f + len), t + len)"
proof -
  obtain q k where sn: "scan_next p f = (q, k)" by (cases "scan_next p f")
  from scan_next_range [OF sn] have fk: "f \<le> k" by simp
  show ?thesis
  proof (cases "k - f = 1 \<and> at q f = DOT")
    case True
    then have "k = f + 1" by auto
    with dot [OF sn] True assms sn show ?thesis by (simp add: canon_step_def)
  next
    case nd: False
    show ?thesis
    proof (cases "k - f = 2 \<and> at q f = DOT \<and> at q (f + 1) = DOT")
      case True
      then have k: "k = f + 2" by auto
      show ?thesis
      proof (cases "t = b")
        case True
        with dotdot_root [OF sn k] \<open>k - f = 2 \<and> at q f = DOT \<and> at q (f + 1) = DOT\<close> assms sn k
        show ?thesis by (auto simp: canon_step_def Let_def numeral_3_eq_3 split: if_splits)
      next
        case False
        with dotdot [OF sn k] \<open>k - f = 2 \<and> at q f = DOT \<and> at q (f + 1) = DOT\<close> assms sn k nd
        show ?thesis by (simp add: canon_step_def Let_def)
      qed
    next
      case False
      define len where "len = (if at q k = BSLASH \<and> at q f \<noteq> BSLASH then k - f + 1 else k - f)"
      have 1: "\<not> (k = f + 1 \<and> at q f = DOT)" using nd by simp
      have 2: "\<not> (k = f + 2 \<and> at q f = DOT \<and> at q (f + 1) = DOT)" using False by simp
      have "s' = (memmove q t f len, b, skip_bslash (memmove q t f len) (f + len), t + len)"
        using assms sn nd False by (auto simp: canon_step_def Let_def len_def)
      from copy [OF sn 1 2 len_def this] show ?thesis .
    qed
  qed
qed


lemma unposix_simps [simp]:
  "unposix c = NUL \<longleftrightarrow> c = NUL" "unposix c \<noteq> SLASH"
  "unposix c = BSLASH \<longleftrightarrow> c = SLASH \<or> c = BSLASH"
  "unposix SLASH = BSLASH" "unposix BSLASH = BSLASH" "unposix NUL = NUL"
  by (auto simp: unposix_def)

text \<open>What the read cursor has passed after an iteration: the segment, its
  separator and the backslashes after it. \<open>q'\<close> is the buffer after the copy,
  which leaves everything from \<open>m\<close> on as it was.\<close>

lemma scan_skip_frame:
  assumes sn: "scan_next p f = (q, k)"
    and m: "k \<le> m" "m \<le> k + 1" "m = k + 1 \<longrightarrow> at q k = BSLASH"
    and same: "\<forall>i. m \<le> i \<longrightarrow> at q' i = at q i"
    and f': "f' = skip_bslash q' m"
  shows "m \<le> f'"
    and "\<And>j. f \<le> j \<Longrightarrow> j < f' \<Longrightarrow> at p j \<noteq> NUL"
    and "\<And>i. f' \<le> i \<Longrightarrow> at q' i = at p i"
    and "at p f \<noteq> NUL \<Longrightarrow> f < f'"
proof -
  note sp = scan_next_range [OF sn] and qa = scan_next_at [OF sn] and qe = scan_next_sep [OF sn]
  note sk = skip_bslash_spec [OF f' [symmetric]]
  have q': "\<And>i. m \<le> i \<Longrightarrow> at q' i = at q i" using same by simp
  show mf: "m \<le> f'" using sk by simp
  have pk: "k < f' \<Longrightarrow> at p k \<noteq> NUL"
  proof -
    assume "k < f'"
    show ?thesis
    proof (cases "m = k")
      case True
      with sk \<open>k < f'\<close> have "at q' k = BSLASH" by simp
      with q' [of k] True have "at q k = BSLASH" by simp
      then show ?thesis by (auto simp: qa)
    next
      case False
      with m have "at q k = BSLASH" by simp
      then show ?thesis by (auto simp: qa)
    qed
  qed
  show "at p j \<noteq> NUL" if "f \<le> j" "j < f'" for j
  proof -
    consider "j < k" | "j = k" | "k < j" by arith
    then show ?thesis
    proof cases
      case 1 with sp that show ?thesis by simp
    next
      case 2 with pk that show ?thesis by simp
    next
      case 3
      with m have "m \<le> j" by simp
      with sk that have "at q' j = BSLASH" by simp
      with q' [OF \<open>m \<le> j\<close>] 3 show ?thesis by (simp add: qa)
    qed
  qed
  show "at q' i = at p i" if "f' \<le> i" for i
  proof (cases "i = k")
    case True
    with that mf m have "f' = k" "m = k" by simp_all
    with sk have "at q' k \<noteq> BSLASH" by simp
    with q' [of k] \<open>m = k\<close> have "at q k \<noteq> BSLASH" by simp
    with qe have "at q k = NUL" by simp
    then have "at p k = NUL" by (simp add: qa)
    with \<open>at q k = NUL\<close> q' [of k] \<open>m = k\<close> True show ?thesis by simp
  next
    case False
    with q' [of i] that mf show ?thesis by (simp add: qa)
  qed
  show "f < f'" if "at p f \<noteq> NUL"
  proof (cases "k = f")
    case True
    with that have "at q k \<noteq> NUL" by (simp add: qa)
    with qe have "at q k = BSLASH" by simp
    show ?thesis
    proof (cases "m = k")
      case True
      with q' [of k] \<open>at q k = BSLASH\<close> have "at q' m = BSLASH" by simp
      from skip_bslash_gt [OF this] f' True \<open>k = f\<close> show ?thesis by simp
    next
      case False
      with m mf \<open>k = f\<close> show ?thesis by simp
    qed
  next
    case False
    with sp m mf show ?thesis by simp
  qed
qed

definition canon_inv :: "wchar list \<Rightarrow> nat \<Rightarrow> wchar list \<times> nat \<times> nat \<times> nat \<Rightarrow> bool" where
  "canon_inv p0 b0 s =
     (case s of (p, b, f, t) \<Rightarrow>
        b = b0 \<and> b \<le> t \<and> t \<le> f \<and> length p = length p0 \<and>
        (\<forall>j<f. at p j \<noteq> NUL \<and> at p0 j \<noteq> NUL) \<and>
        (\<forall>i\<ge>f. at p i = at p0 i) \<and>
        (\<forall>i<b. at p i = at p0 i) \<and>
        (\<forall>i<t. at p i \<noteq> SLASH))"

lemma canon_invI:
  assumes "b = b0" "b \<le> t" "t \<le> f" "length p = length p0"
    "\<And>j. j < f \<Longrightarrow> at p j \<noteq> NUL" "\<And>j. j < f \<Longrightarrow> at p0 j \<noteq> NUL"
    "\<And>i. f \<le> i \<Longrightarrow> at p i = at p0 i"
    "\<And>i. i < b \<Longrightarrow> at p i = at p0 i"
    "\<And>i. i < t \<Longrightarrow> at p i \<noteq> SLASH"
  shows "canon_inv p0 b0 (p, b, f, t)"
  using assms by (simp add: canon_inv_def)


lemma canon_inv_step:
  assumes inv: "canon_inv p0 b0 (p, b, f, t)" and nz: "at p f \<noteq> NUL"
  shows "canon_inv p0 b0 (canon_step (p, b, f, t))"
proof -
  from inv have I: "b = b0" "b \<le> t" "t \<le> f" "length p = length p0"
    "\<And>j. j < f \<Longrightarrow> at p j \<noteq> NUL" "\<And>j. j < f \<Longrightarrow> at p0 j \<noteq> NUL"
    "\<And>i. f \<le> i \<Longrightarrow> at p i = at p0 i"
    "\<And>i. i < b \<Longrightarrow> at p i = at p0 i"
    "\<And>i. i < t \<Longrightarrow> at p i \<noteq> SLASH"
    by (auto simp: canon_inv_def)
  obtain s' where s': "canon_step (p, b, f, t) = s'" by simp
  have "canon_inv p0 b0 s'" using s'
  proof (cases rule: canon_stepE)
    case (dot q k)
    note sp = scan_next_range [OF dot(1)] and qa = scan_next_at [OF dot(1)]
    have len: "length q = length p" using scan_next_length [of p f] dot(1) by simp
    define f' where "f' = skip_bslash q (f + 1)"
    have m: "k \<le> f + 1" "f + 1 \<le> k + 1" "f + 1 = k + 1 \<longrightarrow> at q k = BSLASH"
      using dot(2) by simp_all
    note fr = scan_skip_frame [OF dot(1) m _ f'_def, simplified]
    note fr1 = fr(1) and fr2 = fr(2) and fr3 = fr(3)
    have low: "\<And>i. i < f \<Longrightarrow> at q i = at p i" using sp by (simp add: qa)
    have nn: "at p j \<noteq> NUL" if "j < f'" for j
      using I(5) [of j] fr2 [of j] that by (cases "j < f") simp_all
    have nn0: "at p0 j \<noteq> NUL" if "j < f'" for j
      using I(6) [of j] I(7) [of j] fr2 [of j] that by (cases "j < f") simp_all
    have qnn: "\<And>j. j < f' \<Longrightarrow> at q j \<noteq> NUL" using nn by (simp add: qa)
    show ?thesis unfolding dot(4) f'_def [symmetric]
    proof (rule canon_invI)
      show "t \<le> f'" using I(3) fr1 by simp
      show "at q i = at p0 i" if "f' \<le> i" for i
        using fr3 [OF that] I(7) [of i] that fr1 by simp
      show "at q i = at p0 i" if "i < b" for i
        using low [of i] I(8) [OF that] that I(2,3) by simp
      show "at q i \<noteq> SLASH" if "i < t" for i
        using low [of i] I(9) [OF that] that I(3) by simp
    qed (use I len qnn nn0 in simp_all)
  next
    case (dotdot_root q k)
    note sp = scan_next_range [OF dotdot_root(1)] and qa = scan_next_at [OF dotdot_root(1)]
    have len: "length q = length p" using scan_next_length [of p f] dotdot_root(1) by simp
    define m where "m = (if at q k = BSLASH then k + 1 else k)"
    define f' where "f' = skip_bslash q m"
    have m: "k \<le> m" "m \<le> k + 1" "m = k + 1 \<longrightarrow> at q k = BSLASH"
      by (simp_all add: m_def)
    note fr = scan_skip_frame [OF dotdot_root(1) m _ f'_def, simplified]
    note fr1 = fr(1) and fr2 = fr(2) and fr3 = fr(3)
    have fm: "f \<le> m" using sp by (simp add: m_def)
    have low: "\<And>i. i < f \<Longrightarrow> at q i = at p i" using sp by (simp add: qa)
    have nn: "at p j \<noteq> NUL" if "j < f'" for j
      using I(5) [of j] fr2 [of j] that by (cases "j < f") simp_all
    have nn0: "at p0 j \<noteq> NUL" if "j < f'" for j
      using I(6) [of j] I(7) [of j] fr2 [of j] that by (cases "j < f") simp_all
    have qnn: "\<And>j. j < f' \<Longrightarrow> at q j \<noteq> NUL" using nn by (simp add: qa)
    show ?thesis unfolding dotdot_root(6) m_def [symmetric] f'_def [symmetric]
    proof (rule canon_invI)
      show "t \<le> f'" using I(3) fr1 fm by simp
      show "at q i = at p0 i" if "f' \<le> i" for i
        using fr3 [OF that] I(7) [of i] that fr1 fm by simp
      show "at q i = at p0 i" if "i < b" for i
        using low [of i] I(8) [OF that] that I(2,3) by simp
      show "at q i \<noteq> SLASH" if "i < t" for i
        using low [of i] I(9) [OF that] that I(3) by simp
    qed (use I len qnn nn0 in simp_all)
  next
    case (dotdot q k)
    note sp = scan_next_range [OF dotdot(1)] and qa = scan_next_at [OF dotdot(1)]
    have len: "length q = length p" using scan_next_length [of p f] dotdot(1) by simp
    define f' where "f' = skip_bslash q k"
    define t' where "t' = back_segment q b (back_seps q b t)"
    have t': "b \<le> t'" "t' \<le> t"
      using back_segment_spec [OF t'_def [symmetric]] back_seps_spec [OF refl, of q b t] I(2)
      by auto
    have m: "k \<le> k" "k \<le> k + 1" "k = k + 1 \<longrightarrow> at q k = BSLASH"
      by simp_all
    note fr = scan_skip_frame [OF dotdot(1) m _ f'_def, simplified]
    note fr1 = fr(1) and fr2 = fr(2) and fr3 = fr(3)
    have fm: "f \<le> k" using sp by simp
    have low: "\<And>i. i < f \<Longrightarrow> at q i = at p i" using sp by (simp add: qa)
    have nn: "at p j \<noteq> NUL" if "j < f'" for j
      using I(5) [of j] fr2 [of j] that by (cases "j < f") simp_all
    have nn0: "at p0 j \<noteq> NUL" if "j < f'" for j
      using I(6) [of j] I(7) [of j] fr2 [of j] that by (cases "j < f") simp_all
    have qnn: "\<And>j. j < f' \<Longrightarrow> at q j \<noteq> NUL" using nn by (simp add: qa)
    show ?thesis unfolding dotdot(6) t'_def [symmetric] f'_def [symmetric]
    proof (rule canon_invI)
      show "t' \<le> f'" using I(3) fr1 fm t' by simp
      show "at q i = at p0 i" if "f' \<le> i" for i
        using fr3 [OF that] I(7) [of i] that fr1 fm by simp
      show "at q i = at p0 i" if "i < b" for i
        using low [of i] I(8) [OF that] that I(2,3) by simp
      show "at q i \<noteq> SLASH" if "i < t'" for i
        using low [of i] I(9) [of i] that I(3) t' by simp
    qed (use I len qnn nn0 t' in simp_all)
  next
    case (copy q k len)
    note sp = scan_next_range [OF copy(1)] and qa = scan_next_at [OF copy(1)]
      and qe = scan_next_sep [OF copy(1)]
    have lq: "length q = length p" using scan_next_length [of p f] copy(1) by simp
    define q' where "q' = memmove q t f len"
    define f' where "f' = skip_bslash q' (f + len)"
    have m: "k \<le> f + len" "f + len \<le> k + 1" "f + len = k + 1 \<longrightarrow> at q k = BSLASH"
      using sp copy(4) by (auto split: if_splits)
    have q'hi: "\<forall>i. f + len \<le> i \<longrightarrow> at q' i = at q i"
      using I(3) by (simp add: q'_def at_memmove)
    note fr = scan_skip_frame [OF copy(1) m q'hi f'_def]
    have low: "\<And>i. i < f \<Longrightarrow> at q i = at p i" using sp by (simp add: qa)
    have nn: "at p j \<noteq> NUL" if "j < f'" for j
      using I(5) [of j] fr(2) [of j] that by (cases "j < f") simp_all
    have nn0: "at p0 j \<noteq> NUL" if "j < f'" for j
      using I(6) [of j] I(7) [of j] fr(2) [of j] that by (cases "j < f") simp_all
    have qnn: "\<And>j. j < f' \<Longrightarrow> at q j \<noteq> NUL" using nn by (simp add: qa)
    have seg: "at q j \<noteq> SLASH" if "f \<le> j" "j < f + len" for j
      using sp that m by (simp add: qa)
    have q'nn: "at q' j \<noteq> NUL" if "j < f'" for j
    proof (cases "t \<le> j \<and> j < t + len")
      case True
      then have "f + (j - t) < f'" using fr(1) I(3) by arith
      from at_nonzero_less [OF qnn [OF this]] I(3) True have "j < length q" by arith
      with qnn [OF \<open>f + (j - t) < f'\<close>] True show ?thesis by (simp add: q'_def at_memmove)
    next
      case False
      with qnn [OF that] show ?thesis by (auto simp add: q'_def at_memmove)
    qed
    have q'ns: "at q' i \<noteq> SLASH" if "i < t + len" for i
    proof (cases "t \<le> i")
      case True
      with that seg [of "f + (i - t)"] show ?thesis by (simp add: q'_def at_memmove)
    next
      case False
      with I(9) [of i] low [of i] I(3) show ?thesis by (simp add: q'_def at_memmove)
    qed
    have q'lo: "at q' i = at p i" if "i < t" for i
      using I(3) low [of i] that by (simp add: q'_def at_memmove)
    show ?thesis unfolding copy(5) q'_def [symmetric] f'_def [symmetric]
    proof (rule canon_invI)
      show "t + len \<le> f'" using I(3) fr(1) by simp
      show "at q' i = at p0 i" if "f' \<le> i" for i
        using fr(3) [OF that] I(7) [of i] that fr(1) by simp
      show "at q' i = at p0 i" if "i < b" for i
        using q'lo [of i] I(8) [OF that] that I(2) by simp
      show "length q' = length p0" using lq I(4) by (simp add: q'_def)
    qed (use I q'nn nn0 q'ns in simp_all)
  qed
  then show ?thesis by (simp add: s')
qed


lemma canon_inv_loop:
  "canon_inv p0 b0 s \<Longrightarrow> canon_inv p0 b0 (canon_loop s)"
  by (rule canon_loop_rule [where I = "canon_inv p0 b0"]) (auto intro: canon_inv_step)

lemma path__skip_server_spec:
  "path__skip_server p c = r \<Longrightarrow>
     c \<le> r \<and> (\<forall>j. c \<le> j \<and> j < r \<longrightarrow> at p j \<noteq> NUL) \<and>
     (\<forall>j. c \<le> j \<and> j + 1 < r \<longrightarrow> \<not> path__is_dirsep (at p j)) \<and>
     ((r = c \<and> at p c = NUL) \<or> (c < r \<and> path__is_dirsep (at p (r - 1))) \<or>
      (c < r \<and> at p r = NUL \<and> \<not> path__is_dirsep (at p (r - 1))))"
proof (induction p c arbitrary: r rule: path__skip_server.induct)
  case (1 p c)
  show ?case
  proof (cases "at p c = NUL \<or> path__is_dirsep (at p c)")
    case True
    with "1.prems" have "(r = c \<and> at p c = NUL) \<or> (r = c + 1 \<and> path__is_dirsep (at p c) \<and> at p c \<noteq> NUL)"
      by (subst (asm) path__skip_server.simps) (auto split: if_splits)
    then show ?thesis by (auto simp: less_Suc_eq)
  next
    case False
    with "1.prems" have r: "path__skip_server p (c + 1) = r"
      by (subst (asm) path__skip_server.simps) simp
    from False have a: "at p c \<noteq> NUL" "\<not> path__is_dirsep (at p c)" by simp_all
    from "1.IH" [OF a r]
    have ih: "c + 1 \<le> r" "\<And>j. c + 1 \<le> j \<Longrightarrow> j < r \<Longrightarrow> at p j \<noteq> NUL"
      "\<And>j. c + 1 \<le> j \<Longrightarrow> j + 1 < r \<Longrightarrow> \<not> path__is_dirsep (at p j)"
      "(r = c + 1 \<and> at p (c + 1) = NUL) \<or> (c + 1 < r \<and> path__is_dirsep (at p (r - 1))) \<or>
      (c + 1 < r \<and> at p r = NUL \<and> \<not> path__is_dirsep (at p (r - 1)))"
      by blast+
    have split: "\<And>j. c \<le> j \<Longrightarrow> j = c \<or> c + 1 \<le> j" by arith
    have 1: "c \<le> r" using ih(1) by simp
    have 2: "\<forall>j. c \<le> j \<and> j < r \<longrightarrow> at p j \<noteq> NUL"
      using ih(2) a(1) split by blast
    have 3: "\<forall>j. c \<le> j \<and> j + 1 < r \<longrightarrow> \<not> path__is_dirsep (at p j)"
      using ih(3) a(2) split by blast
    have 4: "(r = c \<and> at p c = NUL) \<or> (c < r \<and> path__is_dirsep (at p (r - 1))) \<or>
      (c < r \<and> at p r = NUL \<and> \<not> path__is_dirsep (at p (r - 1)))"
      using ih(4) a by auto
    from 1 2 3 4 show ?thesis by blast
  qed
qed

lemma at_UNC_lit:
  "at UNC_lit 0 = 0x55" "at UNC_lit (Suc 0) = 0x4E" "at UNC_lit (Suc (Suc 0)) = 0x43"
  "at UNC_lit (Suc (Suc (Suc 0))) = BSLASH"
  by (simp_all add: at_def UNC_lit_def)

lemma wcsncmp_UNC_Suc:
  "wcsncmp p i UNC_lit 0 (Suc (Suc (Suc (Suc 0)))) = 0 \<longleftrightarrow>
     at p i = 0x55 \<and> at p (Suc i) = 0x4E \<and> at p (Suc (Suc i)) = 0x43 \<and>
     at p (Suc (Suc (Suc i))) = BSLASH"
  by (auto simp: at_UNC_lit NUL_def BSLASH_def)

lemma wcsncmp_UNC:
  "wcsncmp p i UNC_lit 0 4 = 0 \<longleftrightarrow>
     at p i = 0x55 \<and> at p (i + 1) = 0x4E \<and> at p (i + 2) = 0x43 \<and> at p (i + 3) = BSLASH"
proof -
  have 4: "(4::nat) = Suc (Suc (Suc (Suc 0)))" by simp
  have "i + 1 = Suc i" "i + 2 = Suc (Suc i)" "i + 3 = Suc (Suc (Suc i))" by simp_all
  then show ?thesis unfolding 4 by (simp only: wcsncmp_UNC_Suc)
qed

lemma git__isalpha_nonul: "git__isalpha c \<Longrightarrow> c \<noteq> NUL"
  by (auto simp: git__isalpha_def NUL_def)

lemma at_consts [simp]: "COLON \<noteq> NUL" "QMARK \<noteq> NUL" "NUL \<noteq> COLON" "NUL \<noteq> QMARK"
  "(0x55::wchar) \<noteq> NUL" "(0x4E::wchar) \<noteq> NUL" "(0x43::wchar) \<noteq> NUL"
  by (simp_all add: COLON_def QMARK_def NUL_def)

lemma below4: "j < (4::nat) \<Longrightarrow> j = 0 \<or> j = 1 \<or> j = 2 \<or> j = 3" by arith
lemma below3: "j < (3::nat) \<Longrightarrow> j = 0 \<or> j = 1 \<or> j = 2" by arith

lemma path__skip_prefix_nonul:
  assumes "j < path__skip_prefix p"
  shows "at p j \<noteq> NUL"
proof -
  have nt: "at p j \<noteq> NUL" if "path__is_nt_namespace p 0" "j < 4" for j
    using that below4 [OF that(2)] by (auto simp: path__is_nt_namespace_def numeral_2_eq_2)
  have ab: "at p j \<noteq> NUL" if "path__is_absolute p i" "i \<le> j" "j < i + 3" for i j
  proof -
    from that have "j = i \<or> j = i + 1 \<or> j = i + 2" by arith
    with that(1) show ?thesis by (auto simp: path__is_absolute_def dest: git__isalpha_nonul)
  qed
  have srv: "at p j \<noteq> NUL" if "c \<le> j" "j < path__skip_server p c" for c j
    using path__skip_server_spec [where p = p and c = c, OF refl] that by blast
  show ?thesis
  proof (cases "path__is_nt_namespace p 0")
    case True
    show ?thesis
    proof (cases "wcsncmp p 4 UNC_lit 0 4 = 0")
      case unc: True
      with True assms have j: "j < path__skip_server p 8"
        by (simp add: path__skip_prefix_def PATH__NT_NAMESPACE_LEN_def)
      from unc have u: "at p 4 \<noteq> NUL" "at p 5 \<noteq> NUL" "at p 6 \<noteq> NUL" "at p 7 \<noteq> NUL"
        by (simp_all add: wcsncmp_UNC)
      consider "j < 4" | "j = 4" | "j = 5" | "j = 6" | "j = 7" | "8 \<le> j" by arith
      then show ?thesis
        using nt [OF True] u srv [OF _ j] by cases auto
    next
      case False
      show ?thesis
      proof (cases "path__is_absolute p 4")
        case abs: True
        with True False assms have "j < 7"
          by (simp add: path__skip_prefix_def PATH__NT_NAMESPACE_LEN_def PATH__ABSOLUTE_LEN_def)
        then show ?thesis using nt [OF True, of j] ab [OF abs, of j] by (cases "j < 4") auto
      next
        case nabs: False
        with True False assms have "j < 4"
          by (simp add: path__skip_prefix_def PATH__NT_NAMESPACE_LEN_def PATH__ABSOLUTE_LEN_def)
        then show ?thesis using nt [OF True] by simp
      qed
    qed
  next
    case False
    show ?thesis
    proof (cases "path__is_absolute p 0")
      case True
      with False assms have "j < 3"
        by (simp add: path__skip_prefix_def PATH__ABSOLUTE_LEN_def)
      with ab [OF True, of j] show ?thesis by simp
    next
      case nabs: False
      show ?thesis
      proof (cases "path__is_unc p 0")
        case True
        with False nabs assms have j: "j < path__skip_server p 2"
          by (simp add: path__skip_prefix_def)
        from True have "at p 0 \<noteq> NUL" "at p 1 \<noteq> NUL" by (auto simp: path__is_unc_def)
        moreover have "j = 0 \<or> j = 1 \<or> 2 \<le> j" by arith
        ultimately show ?thesis using srv [OF _ j] by auto
      next
        case False
        with \<open>\<not> path__is_nt_namespace p 0\<close> nabs assms show ?thesis
          by (simp add: path__skip_prefix_def)
      qed
    qed
  qed
qed

lemma wcslen_ge: "(\<forall>j<n. at p j \<noteq> NUL) \<Longrightarrow> n \<le> wcslen p"
proof (rule ccontr)
  assume a: "\<forall>j<n. at p j \<noteq> NUL" and "\<not> n \<le> wcslen p"
  then have lt: "wcslen p < n" by simp
  with a have nz: "at p (wcslen p) \<noteq> NUL" by simp
  then have "wcslen p < length p" by (rule at_nonzero_less)
  then have "\<not> (p ! wcslen p \<noteq> NUL)"
    unfolding wcslen_def by (rule nth_length_takeWhile)
  with nz \<open>wcslen p < length p\<close> show False by (simp add: at_def)
qed

lemma at_wcslen: "at p (wcslen p) = NUL"
  using nth_length_takeWhile [of "\<lambda>c. c \<noteq> NUL" p] by (auto simp: at_def wcslen_def)

lemma wcslen_nonul: "j < wcslen p \<Longrightarrow> at p j \<noteq> NUL"
  unfolding wcslen_def
  using takeWhile_nth [of j "\<lambda>c. c \<noteq> NUL" p] nth_mem[of j "takeWhile (\<lambda>c. c \<noteq> NUL) p"] set_takeWhileD[of "p ! j" "\<lambda>c. c \<noteq> NUL" p]
    length_takeWhile_le [of "\<lambda>c. c \<noteq> NUL" p]
  by (auto simp: at_def)


lemma canonicalize_run:
  assumes "git_win32_path_canonicalize path = (buf, n)"
  obtains p1 p2 f t t' where
    "unposix_prefix path 0 (path__skip_prefix path) = (p1, path__skip_prefix path)"
    "canon_loop (p1, path__skip_prefix path, path__skip_prefix path, path__skip_prefix path) =
       (p2, path__skip_prefix path, f, t)"
    "canon_inv p1 (path__skip_prefix path) (p2, path__skip_prefix path, f, t)"
    "at p2 f = NUL" "t' = back_seps p2 (path__skip_prefix path) t"
    "buf = p2[t' := NUL]" "n = int t'"
proof -
  define b where "b = path__skip_prefix path"
  obtain p1 f1 where up: "unposix_prefix path 0 b = (p1, f1)" by (cases "unposix_prefix path 0 b")
  note us = unposix_prefix_spec [OF up]
  then have f1: "f1 = b" by simp
  obtain p2 b2 f t where lp: "canon_loop (p1, b, b, b) = (p2, b2, f, t)"
    by (cases "canon_loop (p1, b, b, b)")
  have nn: "\<And>j. j < b \<Longrightarrow> at path j \<noteq> NUL"
    unfolding b_def by (rule path__skip_prefix_nonul)
  have init: "canon_inv p1 b (p1, b, b, b)"
    by (rule canon_invI) (use us nn in auto)
  from canon_inv_loop [OF init] lp have inv: "canon_inv p1 b (p2, b2, f, t)" by simp
  then have b2: "b2 = b" by (simp add: canon_inv_def)
  from canon_loop_exit [OF lp] have ex: "at p2 f = NUL" .
  from assms up lp f1 b2 have "buf = p2[back_seps p2 b t := NUL]" "n = int (back_seps p2 b t)"
    by (simp_all add: git_win32_path_canonicalize_def b_def [symmetric] Let_def)
  with that [of p1 p2 f t "back_seps p2 b t"] up lp inv ex f1 b2 show ?thesis
    by (simp add: b_def)
qed

lemma canonicalize_bounds:
  assumes "git_win32_path_canonicalize path = (buf, n)"
  shows "int (path__skip_prefix path) \<le> n" and "n \<le> int (wcslen path)"
    and "length buf = length path"
    and "take (path__skip_prefix path) buf = map unposix (take (path__skip_prefix path) path)"
proof -
  define b where "b = path__skip_prefix path"
  from assms obtain p1 p2 f t t' where
    up: "unposix_prefix path 0 b = (p1, b)" and
    inv: "canon_inv p1 b (p2, b, f, t)" and
    t': "t' = back_seps p2 b t" and buf: "buf = p2[t' := NUL]" and n: "n = int t'"
    unfolding b_def by (rule canonicalize_run)
  note us = unposix_prefix_spec [OF up]
  from inv have I: "b \<le> t" "t \<le> f" "length p2 = length p1"
    "\<And>j. j < f \<Longrightarrow> at p1 j \<noteq> NUL" "\<And>i. i < b \<Longrightarrow> at p2 i = at p1 i"
    by (auto simp: canon_inv_def)
  from back_seps_spec [OF t' [symmetric]] I(1) have bt: "b \<le> t'" "t' \<le> t" by simp_all
  show "int (path__skip_prefix path) \<le> n" using bt n by (simp add: b_def)
  have "at path j \<noteq> NUL" if "j < f" for j
    using I(4) [OF that] us by (auto split: if_splits)
  then have fw: "f \<le> wcslen path" by (simp add: wcslen_ge)
  with bt I(2) n show "n \<le> int (wcslen path)" by simp
  show len: "length buf = length path" using buf I(3) us by simp
  have bl: "b \<le> length path"
    using fw bt I(2) length_takeWhile_le [of "\<lambda>c. c \<noteq> NUL" path] by (simp add: wcslen_def)
  have "take b buf = map unposix (take b path)"
  proof (rule nth_equalityI)
    show "length (take b buf) = length (map unposix (take b path))" using len by simp
  next
    fix i assume "i < length (take b buf)"
    then have i: "i < b" "i < length path" using len bl by simp_all
    then have "buf ! i = at p2 i" using buf bt len by (simp add: at_def)
    also have "\<dots> = at p1 i" using I(5) i by simp
    also have "\<dots> = unposix (at path i)" using us i by simp
    finally show "take b buf ! i = map unposix (take b path) ! i" using i by (simp add: at_def)
  qed
  then show "take (path__skip_prefix path) buf = map unposix (take (path__skip_prefix path) path)"
    by (simp add: b_def)
qed


section \<open>Properties of canonicalization\<close>

lemma canon_step_base:
  assumes "b \<le> t" "canon_step (p, b, f, t) = (p', b', f', t')"
  shows "b' = b \<and> b \<le> t'"
  using assms(2)
proof (cases rule: canon_stepE)
  case (dotdot q k)
  with assms(1) back_segment_spec [OF refl, of q b "back_seps q b t"] back_seps_spec [OF refl, of q b t]
  show ?thesis by auto
qed (use assms(1) in auto)

lemma canon_step_dotdot_root:
  assumes "scan_next p f = (q, f + 2)" "at q f = DOT" "at q (f + 1) = DOT"
  shows "canon_step (p, b, f, b) =
           (q, b, skip_bslash q (if at q (f + 2) = BSLASH then f + 3 else f + 2), b)"
  using assms by (simp add: canon_step_def Let_def numeral_3_eq_3)

text \<open>Claim C9. \<^verbatim>\<open>git_win32_path_canonicalize\<close> never lengthens its buffer: the
  returned length is at most the length of the string the buffer held on entry,
  and the array itself keeps its size, so the rewrite stays inside the storage
  the input occupied.\<close>

theorem canonicalize_never_lengthens:
  "snd (git_win32_path_canonicalize path) \<le> int (wcslen path) \<and>
   length (fst (git_win32_path_canonicalize path)) = length path"
  using canonicalize_bounds(2,3) [of path] by (cases "git_win32_path_canonicalize path") simp

text \<open>Claim C9 at the buffer \<^verbatim>\<open>a/./b/../c\<close>: ten units on entry, three on return.\<close>

theorem canonicalize_never_lengthens_witness:
  "snd (git_win32_path_canonicalize (L ''a/./b/../c'')) = 3 \<and> 
   wcslen (L ''a/./b/../c'') = 10 \<and>
   snd (git_win32_path_canonicalize (L ''a/./b/../c'')) \<le> int (wcslen (L ''a/./b/../c''))"
proof -
  have 1: "snd (git_win32_path_canonicalize (L ''a/./b/../c'')) = 3" by code_simp
  have 2: "wcslen (L ''a/./b/../c'') = 10" by code_simp
  from canonicalize_never_lengthens [of "L ''a/./b/../c''"] 1 2 show ?thesis by simp
qed

text \<open>Claim C1. The write cursor never moves before the root boundary that
  \<^verbatim>\<open>path__skip_prefix\<close> computes. The returned length is at least the boundary and
  the units before it are those of the input with only the separators respelled;
  every iteration that starts with \<open>base \<le> to\<close> ends with the same \<open>base\<close> and
  \<open>base \<le> to\<close>; and a \<^verbatim>\<open>..\<close> segment met while the write cursor is at the boundary
  is consumed without moving the write cursor and without writing.\<close>

theorem canonicalize_root_boundary:
  "(let b = path__skip_prefix path in
     (case git_win32_path_canonicalize path of
        (buf, n) \<Rightarrow> int b \<le> n \<and> take b buf = map unposix (take b path)) \<and>
     (\<forall>p f t. b \<le> t \<longrightarrow>
        (case canon_step (p, b, f, t) of (p', b', f', t') \<Rightarrow> b' = b \<and> b \<le> t')) \<and>
     (\<forall>p f q. scan_next p f = (q, f + 2) \<and> at q f = DOT \<and> at q (f + 1) = DOT \<longrightarrow>
        canon_step (p, b, f, b) =
          (q, b, skip_bslash q (if at q (f + 2) = BSLASH then f + 3 else f + 2), b)))"
proof -
  obtain buf n where r: "git_win32_path_canonicalize path = (buf, n)"
    by (cases "git_win32_path_canonicalize path")
  from canonicalize_bounds(1,4) [OF r] r
  have 1: "case git_win32_path_canonicalize path of
        (buf, n) \<Rightarrow> int (path__skip_prefix path) \<le> n \<and>
          take (path__skip_prefix path) buf = map unposix (take (path__skip_prefix path) path)"
    by simp
  have 2: "\<forall>p f t. path__skip_prefix path \<le> t \<longrightarrow>
        (case canon_step (p, path__skip_prefix path, f, t) of
           (p', b', f', t') \<Rightarrow> b' = path__skip_prefix path \<and> path__skip_prefix path \<le> t')"
    using canon_step_base by (auto split: prod.splits)
  from 1 2 canon_step_dotdot_root show ?thesis unfolding Let_def by blast
qed


text \<open>Claim C1 at the buffer \<^verbatim>\<open>C:/../x\<close>, whose root boundary is 3: the first
  iteration meets \<^verbatim>\<open>..\<close> with the write cursor at the boundary.\<close>

theorem canonicalize_root_boundary_witness:
  "path__skip_prefix (L ''C:/../x'') = 3 \<and>
   scan_next [0x43, COLON, BSLASH, DOT, DOT, SLASH, 0x78] 3 =
     ([0x43, COLON, BSLASH, DOT, DOT, BSLASH, 0x78], 5) \<and>
   int 3 \<le> snd (git_win32_path_canonicalize (L ''C:/../x'')) \<and>
   take 3 (fst (git_win32_path_canonicalize (L ''C:/../x''))) = map unposix (take 3 (L ''C:/../x'')) \<and>
   snd (snd (snd (canon_step ([0x43, COLON, BSLASH, DOT, DOT, SLASH, 0x78], 3, 3, 3)))) = 3"
proof -
  have b: "path__skip_prefix (L ''C:/../x'') = 3" by code_simp
  have sn: "scan_next [0x43, COLON, BSLASH, DOT, DOT, SLASH, 0x78] 3 =
     ([0x43, COLON, BSLASH, DOT, DOT, BSLASH, 0x78], 3 + 2)" by code_simp
  have d: "at [0x43, COLON, BSLASH, DOT, DOT, BSLASH, 0x78] 3 = DOT"
    "at [0x43, COLON, BSLASH, DOT, DOT, BSLASH, 0x78] (3 + 1) = DOT" by code_simp+
  note T = canonicalize_root_boundary [of "L ''C:/../x''", unfolded Let_def b]
  from T have 1: "int 3 \<le> snd (git_win32_path_canonicalize (L ''C:/../x'')) \<and>
    take 3 (fst (git_win32_path_canonicalize (L ''C:/../x''))) = map unposix (take 3 (L ''C:/../x''))"
    by (auto split: prod.splits)
  from T sn d have "canon_step ([0x43, COLON, BSLASH, DOT, DOT, SLASH, 0x78], 3, 3, 3) =
    ([0x43, COLON, BSLASH, DOT, DOT, BSLASH, 0x78], 3,
      skip_bslash [0x43, COLON, BSLASH, DOT, DOT, BSLASH, 0x78]
        (if at [0x43, COLON, BSLASH, DOT, DOT, BSLASH, 0x78] (3 + 2) = BSLASH then 3 + 3 else 3 + 2), 3)"
    by blast
  then have 2: "snd (snd (snd (canon_step ([0x43, COLON, BSLASH, DOT, DOT, SLASH, 0x78], 3, 3, 3)))) = 3"
    by simp
  from b sn 1 2 show ?thesis by simp
qed

text \<open>Claim C2, as amended. \<^verbatim>\<open>a/./b/../c\<close> becomes \<^verbatim>\<open>a\c\<close>. \<^verbatim>\<open>/a/../../b\<close> has no
  drive or UNC prefix, so its root boundary is 0: the excess \<^verbatim>\<open>..\<close> is absorbed and
  the leading separator, an empty first segment, is dropped, which leaves
  \<^verbatim>\<open>b\<close>. With a drive root the root is kept: \<^verbatim>\<open>C:/a/../../b\<close> becomes \<^verbatim>\<open>C:\b\<close>.\<close>

theorem canonicalize_examples:
  "c_str (fst (git_win32_path_canonicalize (L ''a/./b/../c''))) = L ''a'' @ [BSLASH] @ L ''c'' \<and>
   snd (git_win32_path_canonicalize (L ''a/./b/../c'')) = 3 \<and>
   c_str (fst (git_win32_path_canonicalize (L ''/a/../../b''))) = L ''b'' \<and>
   snd (git_win32_path_canonicalize (L ''/a/../../b'')) = 1 \<and>
   c_str (fst (git_win32_path_canonicalize (L ''C:/a/../../b''))) = L ''C:'' @ [BSLASH] @ L ''b'' \<and>
   snd (git_win32_path_canonicalize (L ''C:/a/../../b'')) = 4"
  by code_simp

text \<open>Claim C2 as stated fails on its second example: the result for
  \<^verbatim>\<open>/a/../../b\<close> is neither \<^verbatim>\<open>\b\<close> nor \<^verbatim>\<open>/b\<close>, and its length is not 2.\<close>

theorem canonicalize_rooted_counterexample:
  "c_str (fst (git_win32_path_canonicalize (L ''/a/../../b''))) \<noteq> [BSLASH] @ L ''b'' \<and>
   c_str (fst (git_win32_path_canonicalize (L ''/a/../../b''))) \<noteq> L ''/b'' \<and>
   snd (git_win32_path_canonicalize (L ''/a/../../b'')) \<noteq> 2"
  by code_simp



section \<open>The platform and the helpers declared elsewhere\<close>

text \<open>
  Narrow (UTF-8) strings are values of type \<^typ>\<open>string\<close>: the bytes before the
  terminator. A \<^verbatim>\<open>NULL\<close> string pointer is \<^const>\<open>None\<close>.

  The operating system and the helpers of the library that are declared outside
  the two files at hand are the fields of one record; every function below
  takes it as its first argument.
\<close>

datatype errno = ENOENT | EINVAL | EACCES | ENAMETOOLONG

text \<open>The two name views of the reparse data block. Each holds the byte offset
  and the byte length of the substitute name inside its path buffer.\<close>

record name_buffer =
  SubstituteNameOffset :: "16 word"
  SubstituteNameLength :: "16 word"
  PathBuffer :: "wchar list"

record GIT_REPARSE_DATA_BUFFER =
  ReparseTag :: "32 word"
  SymbolicLinkReparseBuffer :: name_buffer
  MountPointReparseBuffer :: name_buffer

record WIN32_FIND_DATAW =
  dwFileAttributes :: "32 word"
  ftCreationTime :: "64 word"
  ftLastAccessTime :: "64 word"
  ftLastWriteTime :: "64 word"
  nFileSizeHigh :: "32 word"
  nFileSizeLow :: "32 word"
  cFileName :: "wchar list"

text \<open>How an enumeration ends: \<^verbatim>\<open>FindNextFileW\<close> fails with
  \<^verbatim>\<open>ERROR_NO_MORE_FILES\<close>, or with another error.\<close>

datatype find_end = NoMoreFiles | FindError

text \<open>The answer of \<^verbatim>\<open>GetCurrentDirectoryW\<close>: the directory, or a failure with the
  value of \<^verbatim>\<open>GetLastError()\<close>.\<close>

datatype cwd_result = Cwd "wchar list" | CwdFailed "32 word"

record env =
  CreateFileW :: "wchar list \<Rightarrow> nat option"
  DeviceIoControl :: "nat \<Rightarrow> GIT_REPARSE_DATA_BUFFER option"
  FindFirstFileExW :: "wchar list \<Rightarrow> (WIN32_FIND_DATAW \<times> WIN32_FIND_DATAW list \<times> find_end) option"
  GetCurrentDirectoryW :: cwd_result
  getdrive :: int
  wide_to_utf8 :: "wchar list \<Rightarrow> string option"
  utf8_to_wide :: "string \<Rightarrow> wchar list option"
  git_win32__canonicalize_path :: "wchar list \<Rightarrow> nat \<Rightarrow> wchar list \<times> nat"
  git_win32__findfirstfile_filter :: "string \<Rightarrow> wchar list option"
  filetime_to_time_t :: "64 word \<Rightarrow> int"
  MAX_PATH :: nat
  GIT_WIN_PATH_UTF16 :: nat
  GIT_WIN_PATH_UTF8 :: nat

text \<open>Modelled from the spec: \<^verbatim>\<open>git__utf16_to_8(dest, dest_size, src)\<close> is defined
  outside the files at hand. It returns the number of bytes of the converted
  string, not counting the terminator, or a negative value when the source is
  malformed or the destination is too small; with a destination of size 0 it
  only measures. The second component is what it stored in \<^verbatim>\<open>dest\<close>.\<close>

definition git__utf16_to_8 :: "env \<Rightarrow> nat \<Rightarrow> wchar list \<Rightarrow> int \<times> string option" where
  "git__utf16_to_8 e dest_size src =
     (case wide_to_utf8 e (c_str src) of
        None \<Rightarrow> (- 1, None)
      | Some s \<Rightarrow>
          if dest_size = 0 then (int (length s), None)
          else if length s < dest_size then (int (length s), Some s)
          else (- 1, None))"

text \<open>Modelled from the spec: \<^verbatim>\<open>git__strncmp\<close> and \<^verbatim>\<open>git__strncasecmp\<close> are defined
  outside the files at hand: the comparison of at most \<open>sz\<close> bytes, case-sensitive
  or not. Only the sign of the result is used.\<close>

fun git__strncmp :: "string \<Rightarrow> string \<Rightarrow> nat \<Rightarrow> int" where
  "git__strncmp a b 0 = 0"
| "git__strncmp [] [] (Suc n) = 0"
| "git__strncmp [] (y # ys) (Suc n) = - 1"
| "git__strncmp (x # xs) [] (Suc n) = 1"
| "git__strncmp (x # xs) (y # ys) (Suc n) =
     (if x = y then git__strncmp xs ys n else if x < y then - 1 else 1)"

definition git__tolower :: "char \<Rightarrow> char" where
  "git__tolower c =
     (if CHR ''A'' \<le> c \<and> c \<le> CHR ''Z'' then char_of (of_char c + (32::nat)) else c)"

definition git__strncasecmp :: "string \<Rightarrow> string \<Rightarrow> nat \<Rightarrow> int" where
  "git__strncasecmp a b sz = git__strncmp (map git__tolower a) (map git__tolower b) sz"

text \<open>Modelled from the spec: \<^verbatim>\<open>git_path_is_dot_or_dotdotW\<close> is defined outside the
  files at hand; it recognises the pseudo-entries \<^verbatim>\<open>.\<close> and \<^verbatim>\<open>..\<close>.\<close>

definition git_path_is_dot_or_dotdotW :: "wchar list \<Rightarrow> bool" where
  "git_path_is_dot_or_dotdotW name \<longleftrightarrow> c_str name = [DOT] \<or> c_str name = [DOT, DOT]"

text \<open>Constants of the platform headers.\<close>

definition IO_REPARSE_TAG_SYMLINK :: "32 word" where "IO_REPARSE_TAG_SYMLINK = 0xA000000C"
definition IO_REPARSE_TAG_MOUNT_POINT :: "32 word" where "IO_REPARSE_TAG_MOUNT_POINT = 0xA0000003"
definition FILE_ATTRIBUTE_READONLY :: "32 word" where "FILE_ATTRIBUTE_READONLY = 0x1"
definition FILE_ATTRIBUTE_DIRECTORY :: "32 word" where "FILE_ATTRIBUTE_DIRECTORY = 0x10"
definition FILE_ATTRIBUTE_REPARSE_POINT :: "32 word" where "FILE_ATTRIBUTE_REPARSE_POINT = 0x400"
definition S_IFMT :: "32 word" where "S_IFMT = 0xF000"
definition S_IFDIR :: "32 word" where "S_IFDIR = 0x4000"
definition S_IFREG :: "32 word" where "S_IFREG = 0x8000"
definition S_IFLNK :: "32 word" where "S_IFLNK = 0xA000"
definition S_IREAD :: "32 word" where "S_IREAD = 0x100"
definition S_IWRITE :: "32 word" where "S_IWRITE = 0x80"
definition GIT_PATH_DIR_IGNORE_CASE :: "32 word" where "GIT_PATH_DIR_IGNORE_CASE = 0x1"
definition SIZE_MAX :: nat where "SIZE_MAX = 2 ^ 64 - 1"
definition ERROR_ACCESS_DENIED :: "32 word" where "ERROR_ACCESS_DENIED = 5"

definition S_ISDIR :: "32 word \<Rightarrow> bool" where "S_ISDIR m \<longleftrightarrow> m AND S_IFMT = S_IFDIR"
definition S_ISREG :: "32 word \<Rightarrow> bool" where "S_ISREG m \<longleftrightarrow> m AND S_IFMT = S_IFREG"
definition S_ISLNK :: "32 word \<Rightarrow> bool" where "S_ISLNK m \<longleftrightarrow> m AND S_IFMT = S_IFLNK"

section \<open>Reparse points\<close>

definition VOLUME_lit :: "wchar list" where
  "VOLUME_lit = [BSLASH, QMARK, QMARK, BSLASH] @ L ''Volume{''"

text \<open>\<^verbatim>\<open>path_is_volume(target, target_len)\<close>; the pointer \<^verbatim>\<open>target\<close> is the index
  \<open>target\<close> into the path buffer \<open>buf\<close>.\<close>

definition path_is_volume :: "wchar list \<Rightarrow> nat \<Rightarrow> nat \<Rightarrow> bool" where
  "path_is_volume buf target target_len \<longleftrightarrow>
     target_len \<noteq> 0 \<and> wcsncmp buf target VOLUME_lit 0 11 = 0"

text \<open>The \<^verbatim>\<open>switch\<close> on the reparse tag: the path buffer, the index of the target
  in it and the length of the target, both in units (\<^verbatim>\<open>sizeof(WCHAR)\<close> is 2).
  \<^const>\<open>None\<close> is the \<^verbatim>\<open>default\<close> branch.\<close>

definition reparse_target :: "GIT_REPARSE_DATA_BUFFER \<Rightarrow> (wchar list \<times> nat \<times> nat) option" where
  "reparse_target rb =
     (if ReparseTag rb = IO_REPARSE_TAG_SYMLINK then
        Some (PathBuffer (SymbolicLinkReparseBuffer rb),
              unat (SubstituteNameOffset (SymbolicLinkReparseBuffer rb)) div 2,
              unat (SubstituteNameLength (SymbolicLinkReparseBuffer rb)) div 2)
      else if ReparseTag rb = IO_REPARSE_TAG_MOUNT_POINT then
        Some (PathBuffer (MountPointReparseBuffer rb),
              unat (SubstituteNameOffset (MountPointReparseBuffer rb)) div 2,
              unat (SubstituteNameLength (MountPointReparseBuffer rb)) div 2)
      else None)"

text \<open>The result of \<^verbatim>\<open>git_win32_path_readlink_w\<close>: on success the returned length
  and the string stored in \<^verbatim>\<open>dest\<close>; on failure the return value is \<open>-1\<close>, nothing
  is stored in \<^verbatim>\<open>dest\<close>, and \<^verbatim>\<open>errno\<close> is set or left as it was. The handle is closed on
  every path after it was opened.\<close>

datatype readlink_result = Resolved nat "wchar list" | Unresolved "errno option"

definition readlink_return :: "readlink_result \<Rightarrow> int" where
  "readlink_return r = (case r of Resolved n d \<Rightarrow> int n | Unresolved e \<Rightarrow> - 1)"

definition git_win32_path_readlink_w :: "env \<Rightarrow> wchar list \<Rightarrow> readlink_result" where
  "git_win32_path_readlink_w e path =
     (case CreateFileW e path of
        None \<Rightarrow> Unresolved (Some ENOENT)
      | Some handle \<Rightarrow>
         (case DeviceIoControl e handle of
            None \<Rightarrow> Unresolved (Some EINVAL)
          | Some rb \<Rightarrow>
             (case reparse_target rb of
                None \<Rightarrow> Unresolved (Some EINVAL)
              | Some (buf, target, target_len) \<Rightarrow>
                  if path_is_volume buf target target_len then Unresolved (Some EINVAL)
                  else if target_len \<noteq> 0 then
                    (case git_win32__canonicalize_path e (drop target buf) target_len of
                       (tgt, len) \<Rightarrow>
                         if GIT_WIN_PATH_UTF16 e > len then Resolved len (c_str tgt)
                         else Unresolved None)
                  else Unresolved None)))"

section \<open>Directory listing\<close>

definition PATH__MAX_UNC_LEN :: nat where "PATH__MAX_UNC_LEN = 32767"

record stat =
  st_dev :: int
  st_ino :: nat
  st_mode :: "32 word"
  st_nlink :: nat
  st_uid :: nat
  st_gid :: nat
  st_rdev :: int
  st_size :: "64 word"
  st_atime :: int
  st_mtime :: int
  st_ctime :: int

text \<open>An entry of the collection. \<open>ps_path\<close> holds the \<open>ps_path_len\<close> bytes of the array
  \<^verbatim>\<open>path\<close> that \<^verbatim>\<open>path_len\<close> counts; the byte behind them is the terminator.\<close>

record git_path_with_stat =
  ps_st :: stat
  ps_path_len :: nat
  ps_path :: string

text \<open>The string that a function of the C library reads in an array of bytes: the
  bytes before the first terminator.\<close>

definition cstring :: "string \<Rightarrow> string" where
  "cstring buf = takeWhile (\<lambda>c. c \<noteq> CHR 0x00) buf"

text \<open>What one pass of the loop body does with the entry in \<^verbatim>\<open>dir->f\<close>: nothing, an
  insertion into \<^verbatim>\<open>contents\<close>, the jump to \<^verbatim>\<open>clean_up_and_exit\<close> with \<^verbatim>\<open>error = -1\<close>,
  or a write outside \<^verbatim>\<open>work_path\<close>, which C leaves undefined.\<close>

datatype entry_outcome = Skipped | Inserted git_path_with_stat | Failed | OutOfBounds

text \<open>The end of the loop body, from \<^verbatim>\<open>if (S_ISDIR(ps->st.st_mode))\<close> on.\<close>

definition dirload_finish :: "git_path_with_stat \<Rightarrow> entry_outcome" where
  "dirload_finish ps =
     (if S_ISDIR (st_mode (ps_st ps)) then
        Inserted (ps\<lparr>ps_path := ps_path ps @ ''/'', ps_path_len := ps_path_len ps + 1\<rparr>)
      else if \<not> S_ISREG (st_mode (ps_st ps)) \<and> \<not> S_ISLNK (st_mode (ps_st ps)) then Skipped
      else Inserted ps)"

text \<open>The array \<^verbatim>\<open>work_path\<close> is filled once, before the loop, with the bytes of
  \<^verbatim>\<open>repo_path\<close>, and every pass of the loop writes into the same array. It is the
  list of the bytes written so far, from index 0; no other byte of it is ever
  read.

  One pass converts the entry name behind \<^verbatim>\<open>repo_path\<close> and writes a terminator
  at \<^verbatim>\<open>path_len + repo_path_len\<close>. The result of the conversion is stored in a
  \<^verbatim>\<open>size_t\<close> without a test, so a failure becomes \<^verbatim>\<open>SIZE_MAX\<close> and the sum wraps
  around: the terminator then replaces the last byte of \<^verbatim>\<open>repo_path\<close>, for this
  pass and for every later one. The result is the array and \<^verbatim>\<open>path_len\<close> after
  the pass; \<^const>\<open>None\<close>: the terminator is written outside the array.\<close>

definition dirload_work_path ::
  "env \<Rightarrow> nat \<Rightarrow> string \<Rightarrow> WIN32_FIND_DATAW \<Rightarrow> (string \<times> nat) option"
where
  "dirload_work_path e repo_path_len work_path f =
     (case git__utf16_to_8 e (PATH__MAX_UNC_LEN - repo_path_len) (cFileName f) of
        (r, stored) \<Rightarrow>
          let converted = (case stored of
                  None \<Rightarrow> work_path
                | Some s \<Rightarrow> take repo_path_len work_path @ s @ CHR 0x00 #
                            drop (repo_path_len + length s + 1) work_path);
              path_len = (if r < 0 then SIZE_MAX else nat r);
              path_len = (path_len + repo_path_len) mod (SIZE_MAX + 1)
          in
          if PATH__MAX_UNC_LEN \<le> path_len then None
          else Some (converted[path_len := CHR 0x00], path_len))"

text \<open>The two range tests: true when the entry is kept. \<open>work_path\<close> is the string
  that the comparison reads in the array.\<close>

definition dirload_in_range ::
  "32 word \<Rightarrow> string option \<Rightarrow> string option \<Rightarrow> string \<Rightarrow> nat \<Rightarrow> bool"
where
  "dirload_in_range flags start_stat end_stat work_path path_len =
     (let start_len = (case start_stat of None \<Rightarrow> 0 | Some s \<Rightarrow> length s);
          end_len = (case end_stat of None \<Rightarrow> 0 | Some s \<Rightarrow> length s);
          strncomp = (if flags AND GIT_PATH_DIR_IGNORE_CASE \<noteq> 0
                      then git__strncasecmp else git__strncmp)
      in
      \<not> (case start_stat of None \<Rightarrow> False
         | Some s \<Rightarrow> min start_len path_len \<noteq> 0 \<and>
             strncomp work_path s (min start_len path_len) < 0) \<and>
      \<not> (case end_stat of None \<Rightarrow> False
         | Some s \<Rightarrow> min end_len path_len \<noteq> 0 \<and>
             strncomp work_path s (min end_len path_len) > 0))"

text \<open>The record filled in from the native attributes.\<close>

definition dirload_stat :: "env \<Rightarrow> WIN32_FIND_DATAW \<Rightarrow> stat" where
  "dirload_stat e f =
     (let fMode = S_IREAD;
          fMode = (if dwFileAttributes f AND FILE_ATTRIBUTE_DIRECTORY \<noteq> 0
                   then fMode OR S_IFDIR else fMode OR S_IFREG);
          fMode = (if dwFileAttributes f AND FILE_ATTRIBUTE_READONLY = 0
                   then fMode OR S_IWRITE else fMode)
      in \<lparr>st_dev = getdrive e - 1, st_ino = 0, st_mode = fMode,
          st_nlink = 1, st_uid = 0, st_gid = 0, st_rdev = getdrive e - 1,
          st_size = push_bit 32 (ucast (nFileSizeHigh f)) OR ucast (nFileSizeLow f),
          st_atime = filetime_to_time_t e (ftLastAccessTime f),
          st_mtime = filetime_to_time_t e (ftLastWriteTime f),
          st_ctime = filetime_to_time_t e (ftCreationTime f)\<rparr>)"

text \<open>The treatment of an entry with \<^verbatim>\<open>FILE_ATTRIBUTE_REPARSE_POINT\<close>. \<^const>\<open>None\<close>:
  the length of the target cannot be computed and the listing is given up.\<close>

definition dirload_reparse ::
  "env \<Rightarrow> WIN32_FIND_DATAW \<Rightarrow> git_path_with_stat \<Rightarrow> git_path_with_stat option"
where
  "dirload_reparse e f ps =
     (if dwFileAttributes f AND FILE_ATTRIBUTE_REPARSE_POINT \<noteq> 0 then
        (case git_win32_path_readlink_w e (cFileName f) of
           Resolved n target \<Rightarrow>
             let sz = fst (git__utf16_to_8 e 0 target) in
             if sz < 0 then None
             else Some (ps\<lparr>ps_st := (ps_st ps)\<lparr>
                    st_mode := (st_mode (ps_st ps) AND NOT S_IFMT) OR S_IFLNK,
                    st_size := word_of_int sz\<rparr>\<rparr>)
         | Unresolved en \<Rightarrow> Some ps)
      else Some ps)"

text \<open>The body of the loop for the entry in \<^verbatim>\<open>dir->f\<close>, on the array \<^verbatim>\<open>work_path\<close> as
  the passes before left it: what the pass does, and the array after it.\<close>

definition dirload_entry ::
  "env \<Rightarrow> nat \<Rightarrow> string \<Rightarrow> 32 word \<Rightarrow> string option \<Rightarrow> string option \<Rightarrow> WIN32_FIND_DATAW \<Rightarrow>
   entry_outcome \<times> string"
where
  "dirload_entry e repo_path_len work_path flags start_stat end_stat f =
     (if git_path_is_dot_or_dotdotW (cFileName f) then (Skipped, work_path)
      else
        case dirload_work_path e repo_path_len work_path f of
          None \<Rightarrow> (OutOfBounds, work_path)
        | Some (work_path', path_len) \<Rightarrow>
            (if dirload_in_range flags start_stat end_stat (cstring work_path') path_len then
               (case dirload_reparse e f
                       \<lparr>ps_st = dirload_stat e f, ps_path_len = path_len,
                        ps_path = take path_len work_path'\<rparr>
                of None \<Rightarrow> Failed
                 | Some ps \<Rightarrow> dirload_finish ps)
             else Skipped,
             work_path'))"

text \<open>Modelled from the spec: \<^verbatim>\<open>git_vector_sort\<close> is defined outside the files at
  hand. The collection is ordered by lexicographic comparison of the paths,
  ties keeping their enumeration order.\<close>

definition git_vector_sort :: "git_path_with_stat list \<Rightarrow> git_path_with_stat list" where
  "git_vector_sort contents = sort_key (\<lambda>ps. cstring (ps_path ps)) contents"

text \<open>The result of the listing: the returned \<^verbatim>\<open>error\<close> with the contents of the
  vector, or undefined behaviour.\<close>

datatype dirload_result = Returned int "git_path_with_stat list" | Undefined

text \<open>The loop \<^verbatim>\<open>while (dir)\<close>, on the entry in \<^verbatim>\<open>dir->f\<close>, the entries that
  \<^verbatim>\<open>FindNextFileW\<close> will still deliver, and the way the enumeration ends.\<close>

fun dirload_loop ::
  "env \<Rightarrow> nat \<Rightarrow> string \<Rightarrow> 32 word \<Rightarrow> string option \<Rightarrow> string option \<Rightarrow>
   WIN32_FIND_DATAW \<Rightarrow> WIN32_FIND_DATAW list \<Rightarrow> find_end \<Rightarrow>
   git_path_with_stat list \<Rightarrow> dirload_result"
where
  "dirload_loop e repo_path_len work_path flags start_stat end_stat f [] ending contents =
     (case dirload_entry e repo_path_len work_path flags start_stat end_stat f of
        (OutOfBounds, work_path') \<Rightarrow> Undefined
      | (Failed, work_path') \<Rightarrow> Returned (- 1) contents
      | (Skipped, work_path') \<Rightarrow>
          (case ending of NoMoreFiles \<Rightarrow> Returned 0 (git_vector_sort contents)
           | FindError \<Rightarrow> Returned (- 1) contents)
      | (Inserted ps, work_path') \<Rightarrow>
          (case ending of NoMoreFiles \<Rightarrow> Returned 0 (git_vector_sort (contents @ [ps]))
           | FindError \<Rightarrow> Returned (- 1) (contents @ [ps])))"
| "dirload_loop e repo_path_len work_path flags start_stat end_stat f (f' # rest) ending contents =
     (case dirload_entry e repo_path_len work_path flags start_stat end_stat f of
        (OutOfBounds, work_path') \<Rightarrow> Undefined
      | (Failed, work_path') \<Rightarrow> Returned (- 1) contents
      | (Skipped, work_path') \<Rightarrow>
          dirload_loop e repo_path_len work_path' flags start_stat end_stat f' rest ending contents
      | (Inserted ps, work_path') \<Rightarrow>
          dirload_loop e repo_path_len work_path' flags start_stat end_stat f' rest ending
            (contents @ [ps]))"

text \<open>The listing. \<^verbatim>\<open>repo_path\<close> is \<^verbatim>\<open>path + prefix_len\<close>, and its length is taken at
  once: a prefix longer than the path is undefined. When the search filter
  cannot be built, the code jumps to \<^verbatim>\<open>clean_up_and_exit\<close> and tests \<^verbatim>\<open>dir\<close> there,
  which has no value yet: that is undefined too.\<close>

definition git_win32_path_dirload_with_stat ::
  "env \<Rightarrow> string \<Rightarrow> nat \<Rightarrow> 32 word \<Rightarrow> string option \<Rightarrow> string option \<Rightarrow>
   git_path_with_stat list \<Rightarrow> dirload_result"
where
  "git_win32_path_dirload_with_stat e path prefix_len flags start_stat end_stat contents =
     (if length path < prefix_len then Undefined
      else
        let repo_path = drop prefix_len path;
            repo_path_len = length repo_path
        in
        case git_win32__findfirstfile_filter e path of
          None \<Rightarrow> Undefined
        | Some pathw \<Rightarrow>
           (case FindFirstFileExW e pathw of
              None \<Rightarrow> Returned (- 1) contents
            | Some (f, rest, ending) \<Rightarrow>
                if PATH__MAX_UNC_LEN < repo_path_len then Returned (- 1) contents
                else dirload_loop e repo_path_len repo_path flags start_stat end_stat
                       f rest ending contents))"

section \<open>Properties of reparse-point resolution\<close>

lemma wcsncmp_eqI:
  "(\<forall>i<n. at a (i0 + i) = at b (j0 + i)) \<Longrightarrow> wcsncmp a i0 b j0 n = 0"
proof (induction n arbitrary: i0 j0)
  case 0
  then show ?case by simp
next
  case (Suc n)
  have "at a i0 = at b j0" using Suc.prems [rule_format, of 0] by simp
  moreover have "\<forall>i<n. at a (i0 + 1 + i) = at b (j0 + 1 + i)"
    using Suc.prems by (auto dest: spec [where x = "Suc i" for i])
  from Suc.IH [OF this] have "wcsncmp a (i0 + 1) b (j0 + 1) n = 0" .
  ultimately show ?case by simp
qed

lemma length_VOLUME_lit: "length VOLUME_lit = 11"
  by (simp add: VOLUME_lit_def L_def)

lemma path_is_volume_prefix:
  assumes "take 11 (take target_len (drop target buf)) = VOLUME_lit"
  shows "path_is_volume buf target target_len"
proof -
  have len: "length (take 11 (take target_len (drop target buf))) = 11"
    using assms length_VOLUME_lit by simp
  then have tl: "11 \<le> target_len" "target + 11 \<le> length buf" by auto
  have "at buf (target + i) = at VOLUME_lit (0 + i)" if "i < 11" for i
  proof -
    have "VOLUME_lit ! i = take 11 (take target_len (drop target buf)) ! i" using assms by simp
    also have "\<dots> = buf ! (target + i)" using that tl by simp
    finally show ?thesis using that tl length_VOLUME_lit by (simp add: at_def)
  qed
  then have "wcsncmp buf target VOLUME_lit 0 11 = 0" by (intro wcsncmp_eqI) simp
  with tl show ?thesis by (simp add: path_is_volume_def)
qed

text \<open>Claim C4. When the handle opens, the reparse data is read, the tag is one of
  the two recognised ones and the extracted target, \<open>target_len\<close> units at
  \<open>target\<close>, begins with the literal \<^verbatim>\<open>\??\Volume{\<close>, the call fails: it returns a
  negative value with \<^verbatim>\<open>errno\<close> set to \<^verbatim>\<open>EINVAL\<close> and stores nothing in \<^verbatim>\<open>dest\<close>.\<close>

theorem readlink_rejects_volume_mount:
  assumes "CreateFileW e path = Some handle"
    and "DeviceIoControl e handle = Some rb"
    and "reparse_target rb = Some (buf, target, target_len)"
    and "take 11 (take target_len (drop target buf)) = VOLUME_lit"
  shows "git_win32_path_readlink_w e path = Unresolved (Some EINVAL) \<and>
         readlink_return (git_win32_path_readlink_w e path) < 0"
  using assms path_is_volume_prefix [OF assms(4)]
  by (simp add: git_win32_path_readlink_w_def readlink_return_def)


section \<open>Properties of the directory listing\<close>

lemma cstring_append_nul: "cstring (xs @ CHR 0x00 # t) = cstring xs @ []"
  by (induction xs) (simp_all add: cstring_def)

lemma cstring_id: "CHR 0x00 \<notin> set xs \<Longrightarrow> cstring xs = xs"
  by (induction xs) (auto simp: cstring_def)

lemma cstring_terminated: "CHR 0x00 \<notin> set xs \<Longrightarrow> cstring (xs @ CHR 0x00 # t) = xs"
  by (simp add: cstring_append_nul cstring_id)

text \<open>A name converts and fits behind the repository path in \<^verbatim>\<open>work_path\<close>.\<close>

definition name_fits :: "env \<Rightarrow> nat \<Rightarrow> WIN32_FIND_DATAW \<Rightarrow> bool" where
  "name_fits e repo_path_len f =
     (case wide_to_utf8 e (c_str (cFileName f)) of
        None \<Rightarrow> False
      | Some s \<Rightarrow> repo_path_len + length s < PATH__MAX_UNC_LEN)"

lemma name_fitsE:
  assumes "name_fits e n f"
  obtains s where "wide_to_utf8 e (c_str (cFileName f)) = Some s" "n + length s < PATH__MAX_UNC_LEN"
  using assms by (auto simp: name_fits_def split: option.splits)

lemma utf16_to_8_fits:
  assumes "wide_to_utf8 e (c_str name) = Some s" "n + length s < PATH__MAX_UNC_LEN"
  shows "git__utf16_to_8 e (PATH__MAX_UNC_LEN - n) name = (int (length s), Some s)"
  using assms by (simp add: git__utf16_to_8_def)

lemma size_t_small:
  "n < PATH__MAX_UNC_LEN \<Longrightarrow> n mod (SIZE_MAX + 1) = n"
  by (simp add: PATH__MAX_UNC_LEN_def SIZE_MAX_def)

lemma terminator_in_place:
  "(a @ s @ CHR 0x00 # t)[length s + length a := CHR 0x00] = a @ s @ CHR 0x00 # t"
  by (simp add: list_update_append)

lemma dirload_work_path_fits:
  assumes conv: "wide_to_utf8 e (c_str (cFileName f)) = Some s"
    and fits: "length rp + length s < PATH__MAX_UNC_LEN"
    and pre: "take (length rp) wp = rp"
  shows "dirload_work_path e (length rp) wp f =
           Some (rp @ s @ CHR 0x00 # drop (length rp + length s + 1) wp, length rp + length s)"
proof -
  have m: "(length s + length rp) mod (SIZE_MAX + 1) = length s + length rp"
    using size_t_small [OF fits] by (simp add: add.commute)
  have lt: "\<not> PATH__MAX_UNC_LEN \<le> length s + length rp" using fits by simp
  show ?thesis
    unfolding dirload_work_path_def Let_def utf16_to_8_fits [OF conv fits]
    by (simp only: prod.case option.case pre m lt if_False nat_int terminator_in_place
          of_nat_less_0_iff)
       (simp add: add.commute)
qed

text \<open>While every name converts and fits, the array begins with the repository
  path and the outcome of a pass depends on nothing else in it.\<close>

lemma dirload_entry_prefix:
  assumes fit: "name_fits e (length rp) f"
    and pre: "take (length rp) wp = rp"
  shows "fst (dirload_entry e (length rp) wp fl st en f) =
         fst (dirload_entry e (length rp) rp fl st en f)"
    and "take (length rp) (snd (dirload_entry e (length rp) wp fl st en f)) = rp"
    and "fst (dirload_entry e (length rp) wp fl st en f) \<noteq> OutOfBounds"
proof -
  from fit obtain s where s: "wide_to_utf8 e (c_str (cFileName f)) = Some s"
    "length rp + length s < PATH__MAX_UNC_LEN" by (rule name_fitsE)
  have c: "cstring (rp @ s @ CHR 0x00 # t) = cstring (rp @ s)" for t
    using cstring_append_nul [of "rp @ s" t] by simp
  have w1: "dirload_work_path e (length rp) wp f =
           Some (rp @ s @ CHR 0x00 # drop (length rp + length s + 1) wp, length rp + length s)"
    by (rule dirload_work_path_fits [OF s pre])
  have w2: "dirload_work_path e (length rp) rp f =
           Some (rp @ s @ CHR 0x00 # drop (length rp + length s + 1) rp, length rp + length s)"
    by (rule dirload_work_path_fits [OF s]) simp
  show "fst (dirload_entry e (length rp) wp fl st en f) =
         fst (dirload_entry e (length rp) rp fl st en f)"
    by (simp add: dirload_entry_def w1 w2 c)
  show "take (length rp) (snd (dirload_entry e (length rp) wp fl st en f)) = rp"
    using pre by (simp add: dirload_entry_def w1)
  show "fst (dirload_entry e (length rp) wp fl st en f) \<noteq> OutOfBounds"
    by (auto simp: dirload_entry_def w1 dirload_finish_def split: option.splits)
qed

text \<open>The result of the loop from the outcomes of its passes.\<close>

fun outcomes_result ::
  "entry_outcome list \<Rightarrow> find_end \<Rightarrow> git_path_with_stat list \<Rightarrow> dirload_result"
where
  "outcomes_result [] ending cs =
     (case ending of NoMoreFiles \<Rightarrow> Returned 0 (git_vector_sort cs)
      | FindError \<Rightarrow> Returned (- 1) cs)"
| "outcomes_result (out # outs) ending cs =
     (case out of
        OutOfBounds \<Rightarrow> Undefined
      | Failed \<Rightarrow> Returned (- 1) cs
      | Skipped \<Rightarrow> outcomes_result outs ending cs
      | Inserted ps \<Rightarrow> outcomes_result outs ending (cs @ [ps]))"

text \<open>The outcome of the pass for an entry while the array begins with the
  repository path.\<close>

definition entry_outcome_of ::
  "env \<Rightarrow> string \<Rightarrow> 32 word \<Rightarrow> string option \<Rightarrow> string option \<Rightarrow> WIN32_FIND_DATAW \<Rightarrow>
   entry_outcome"
where
  "entry_outcome_of e repo_path flags start_stat end_stat f =
     fst (dirload_entry e (length repo_path) repo_path flags start_stat end_stat f)"

lemma dirload_loop_outcomes:
  assumes "\<forall>d \<in> set (f # rest). name_fits e (length rp) d"
    and "take (length rp) wp = rp"
  shows "dirload_loop e (length rp) wp fl st en f rest ending cs =
           outcomes_result (map (entry_outcome_of e rp fl st en) (f # rest)) ending cs"
  using assms
proof (induction rest arbitrary: f wp cs)
  case Nil
  then have fit: "name_fits e (length rp) f" by simp
  note P = dirload_entry_prefix [OF fit Nil.prems(2), of fl st en]
  obtain out wp' where o: "dirload_entry e (length rp) wp fl st en f = (out, wp')"
    by (cases "dirload_entry e (length rp) wp fl st en f")
  with P(1) have "entry_outcome_of e rp fl st en f = out" by (simp add: entry_outcome_of_def)
  with o show ?case by (cases out) simp_all
next
  case (Cons f' rest)
  then have fit: "name_fits e (length rp) f" by simp
  note P = dirload_entry_prefix [OF fit Cons.prems(2), of fl st en]
  obtain out wp' where o: "dirload_entry e (length rp) wp fl st en f = (out, wp')"
    by (cases "dirload_entry e (length rp) wp fl st en f")
  with P(1) have eo: "entry_outcome_of e rp fl st en f = out" by (simp add: entry_outcome_of_def)
  from P(2) o have pre': "take (length rp) wp' = rp" by simp
  from Cons.prems have fits': "\<forall>d \<in> set (f' # rest). name_fits e (length rp) d" by simp
  note IH = Cons.IH [OF fits' pre']
  show ?case
    by (cases out) (simp_all add: o eo IH)
qed

text \<open>The entries that the passes insert, in enumeration order.\<close>

definition inserted_entries ::
  "env \<Rightarrow> string \<Rightarrow> 32 word \<Rightarrow> string option \<Rightarrow> string option \<Rightarrow> WIN32_FIND_DATAW list \<Rightarrow>
   git_path_with_stat list"
where
  "inserted_entries e repo_path flags start_stat end_stat fs =
     concat (map (\<lambda>f. case entry_outcome_of e repo_path flags start_stat end_stat f of
                          Inserted ps \<Rightarrow> [ps] | _ \<Rightarrow> []) fs)"

lemma inserted_entries_simps [simp]:
  "inserted_entries e rp fl st en [] = []"
  "inserted_entries e rp fl st en (f # fs) =
     (case entry_outcome_of e rp fl st en f of Inserted ps \<Rightarrow> [ps] | _ \<Rightarrow> []) @
     inserted_entries e rp fl st en fs"
  by (simp_all add: inserted_entries_def)

lemma set_inserted_entries:
  "set (inserted_entries e rp fl st en fs) =
     {ps. \<exists>f \<in> set fs. entry_outcome_of e rp fl st en f = Inserted ps}"
  by (induction fs) (auto split: entry_outcome.splits)

lemma outcomes_result_complete:
  assumes "\<forall>d \<in> set fs. entry_outcome_of e rp fl st en d \<noteq> Failed \<and>
             entry_outcome_of e rp fl st en d \<noteq> OutOfBounds"
  shows "outcomes_result (map (entry_outcome_of e rp fl st en) fs) NoMoreFiles cs =
           Returned 0 (git_vector_sort (cs @ inserted_entries e rp fl st en fs))"
  using assms
proof (induction fs arbitrary: cs)
  case Nil
  then show ?case by simp
next
  case (Cons f fs)
  then show ?case by (cases "entry_outcome_of e rp fl st en f") simp_all
qed

lemma outcomes_result_contents:
  "outcomes_result (map (entry_outcome_of e rp fl st en) fs) ending cs = Returned err cs' \<Longrightarrow>
     set cs' \<subseteq> set cs \<union> set (inserted_entries e rp fl st en fs)"
proof (induction fs arbitrary: cs)
  case Nil
  then show ?case by (cases ending) (auto simp: git_vector_sort_def)
next
  case (Cons f fs)
  show ?case
  proof (cases "entry_outcome_of e rp fl st en f")
    case Skipped
    with Cons.prems have
      "outcomes_result (map (entry_outcome_of e rp fl st en) fs) ending cs = Returned err cs'"
      by simp
    from Cons.IH [OF this] Skipped show ?thesis by auto
  next
    case (Inserted ps)
    with Cons.prems have
      "outcomes_result (map (entry_outcome_of e rp fl st en) fs) ending (cs @ [ps]) = Returned err cs'"
      by simp
    from Cons.IH [OF this] Inserted show ?thesis by auto
  next
    case Failed
    with Cons.prems show ?thesis by auto
  next
    case OutOfBounds
    with Cons.prems show ?thesis by simp
  qed
qed

lemma outcomes_result_success:
  "outcomes_result (map (entry_outcome_of e rp fl st en) fs) ending cs = Returned 0 cs' \<Longrightarrow>
     cs' = git_vector_sort (cs @ inserted_entries e rp fl st en fs)"
proof (induction fs arbitrary: cs)
  case Nil
  then show ?case by (cases ending) auto
next
  case (Cons f fs)
  show ?case
  proof (cases "entry_outcome_of e rp fl st en f")
    case Skipped
    with Cons.prems have
      "outcomes_result (map (entry_outcome_of e rp fl st en) fs) ending cs = Returned 0 cs'"
      by simp
    from Cons.IH [OF this] Skipped show ?thesis by simp
  next
    case (Inserted ps)
    with Cons.prems have
      "outcomes_result (map (entry_outcome_of e rp fl st en) fs) ending (cs @ [ps]) = Returned 0 cs'"
      by simp
    from Cons.IH [OF this] Inserted show ?thesis by simp
  next
    case Failed
    with Cons.prems show ?thesis by simp
  next
    case OutOfBounds
    with Cons.prems show ?thesis by simp
  qed
qed

text \<open>The listing of a directory that can be opened, while every name converts
  and fits.\<close>

lemma dirload_opened:
  assumes "git_win32__findfirstfile_filter e path = Some pathw"
    and "FindFirstFileExW e pathw = Some (f, rest, ending)"
    and "prefix_len \<le> length path"
    and "\<forall>d \<in> set (f # rest). name_fits e (length path - prefix_len) d"
  shows "git_win32_path_dirload_with_stat e path prefix_len fl st en cs =
           outcomes_result (map (entry_outcome_of e (drop prefix_len path) fl st en) (f # rest))
             ending cs"
proof -
  from assms(4) have "name_fits e (length path - prefix_len) f" by simp
  then obtain s where "wide_to_utf8 e (c_str (cFileName f)) = Some s"
    "length path - prefix_len + length s < PATH__MAX_UNC_LEN"
    by (rule name_fitsE)
  then have le: "\<not> PATH__MAX_UNC_LEN < length path - prefix_len" by simp
  have "dirload_loop e (length (drop prefix_len path)) (drop prefix_len path) fl st en f rest ending cs =
          outcomes_result (map (entry_outcome_of e (drop prefix_len path) fl st en) (f # rest))
             ending cs"
    by (rule dirload_loop_outcomes) (use assms(4) in simp_all)
  with assms(1-3) le show ?thesis
    by (simp add: git_win32_path_dirload_with_stat_def Let_def)
qed

lemma dirload_finish_cases:
  "dirload_finish ps = Inserted ps' \<Longrightarrow>
     st_mode (ps_st ps') = st_mode (ps_st ps) \<and>
     ((S_ISDIR (st_mode (ps_st ps)) \<and> ps_path ps' = ps_path ps @ ''/'') \<or>
      (\<not> S_ISDIR (st_mode (ps_st ps)) \<and> ps_path ps' = ps_path ps))"
  by (auto simp: dirload_finish_def split: if_splits)

lemma dirload_reparse_path:
  "dirload_reparse e f ps = Some ps' \<Longrightarrow> ps_path ps' = ps_path ps"
  by (auto simp: dirload_reparse_def Let_def split: if_splits readlink_result.splits)

lemma entry_outcome_fits:
  assumes conv: "wide_to_utf8 e (c_str (cFileName f)) = Some s"
    and fits: "length rp + length s < PATH__MAX_UNC_LEN"
  shows "entry_outcome_of e rp fl st en f =
           (if git_path_is_dot_or_dotdotW (cFileName f) then Skipped
            else if dirload_in_range fl st en (cstring (rp @ s)) (length rp + length s) then
              (case dirload_reparse e f
                      \<lparr>ps_st = dirload_stat e f, ps_path_len = length rp + length s,
                       ps_path = rp @ s\<rparr>
               of None \<Rightarrow> Failed
                | Some ps \<Rightarrow> dirload_finish ps)
            else Skipped)"
proof -
  have c: "cstring (rp @ s @ CHR 0x00 # t) = cstring (rp @ s)" for t
    using cstring_append_nul [of "rp @ s" t] by simp
  have w: "dirload_work_path e (length rp) rp f =
           Some (rp @ s @ CHR 0x00 # drop (length rp + length s + 1) rp, length rp + length s)"
    by (rule dirload_work_path_fits [OF conv fits]) simp
  show ?thesis by (simp add: entry_outcome_of_def dirload_entry_def w c)
qed

lemma dirload_entry_Inserted:
  assumes conv: "wide_to_utf8 e (c_str (cFileName f)) = Some s"
    and fits: "length rp + length s < PATH__MAX_UNC_LEN"
    and ins: "entry_outcome_of e rp fl st en f = Inserted ps"
  shows "(S_ISDIR (st_mode (ps_st ps)) \<and> ps_path ps = rp @ s @ ''/'') \<or>
         (\<not> S_ISDIR (st_mode (ps_st ps)) \<and> ps_path ps = rp @ s)"
proof -
  from ins obtain ps0 ps1 where
    rp: "dirload_reparse e f ps0 = Some ps1" and p0: "ps_path ps0 = rp @ s"
    and fin: "dirload_finish ps1 = Inserted ps"
    unfolding entry_outcome_fits [OF conv fits]
    by (auto split: if_splits option.splits)
  from dirload_finish_cases [OF fin] dirload_reparse_path [OF rp] p0 show ?thesis by auto
qed

text \<open>The separators of a text path.\<close>

definition is_dirsep_char :: "char \<Rightarrow> bool" where
  "is_dirsep_char c \<longleftrightarrow> c = CHR ''/'' \<or> c = CHR 0x5C"

text \<open>While every name that the enumeration delivers converts to a non-empty
  string that does not end in a separator and fits behind the repository path,
  every directory of the collection has a path that ends in exactly one
  separator, and every other entry a path that does not end in one.\<close>

lemma dirload_directory_suffix_converted:
  assumes res: "git_win32_path_dirload_with_stat e path prefix_len flags start_stat end_stat [] =
                  Returned err cs"
    and op: "git_win32__findfirstfile_filter e path = Some pathw"
      "FindFirstFileExW e pathw = Some (f, rest, ending)"
    and names: "\<forall>d \<in> set (f # rest). \<exists>s. wide_to_utf8 e (c_str (cFileName d)) = Some s \<and>
           s \<noteq> [] \<and> \<not> is_dirsep_char (last s) \<and>
           length path - prefix_len + length s < PATH__MAX_UNC_LEN"
  shows "\<forall>ps \<in> set cs.
           (S_ISDIR (st_mode (ps_st ps)) \<longrightarrow>
              (\<exists>p. ps_path ps = p @ ''/'' \<and> p \<noteq> [] \<and> \<not> is_dirsep_char (last p))) \<and>
           (\<not> S_ISDIR (st_mode (ps_st ps)) \<longrightarrow>
              ps_path ps \<noteq> [] \<and> \<not> is_dirsep_char (last (ps_path ps)))"
proof
  fix ps assume ps: "ps \<in> set cs"
  let ?rp = "drop prefix_len path"
  have pl: "prefix_len \<le> length path"
    using res by (auto simp: git_win32_path_dirload_with_stat_def split: if_splits)
  have fit: "\<forall>d \<in> set (f # rest). name_fits e (length path - prefix_len) d"
    using names by (auto simp: name_fits_def)
  from res dirload_opened [OF op pl fit]
  have "outcomes_result (map (entry_outcome_of e ?rp flags start_stat end_stat) (f # rest))
          ending [] = Returned err cs" by simp
  from outcomes_result_contents [OF this] ps
  have "ps \<in> set (inserted_entries e ?rp flags start_stat end_stat (f # rest))" by auto
  then obtain d where d: "d \<in> set (f # rest)"
    and ins: "entry_outcome_of e ?rp flags start_stat end_stat d = Inserted ps"
    unfolding set_inserted_entries by blast
  from names d obtain s where s: "wide_to_utf8 e (c_str (cFileName d)) = Some s"
    "s \<noteq> []" "\<not> is_dirsep_char (last s)"
    "length ?rp + length s < PATH__MAX_UNC_LEN"
    by auto
  from dirload_entry_Inserted [OF s(1) s(4) ins] s(2,3)
  show "(S_ISDIR (st_mode (ps_st ps)) \<longrightarrow>
              (\<exists>p. ps_path ps = p @ ''/'' \<and> p \<noteq> [] \<and> \<not> is_dirsep_char (last p))) \<and>
           (\<not> S_ISDIR (st_mode (ps_st ps)) \<longrightarrow>
              ps_path ps \<noteq> [] \<and> \<not> is_dirsep_char (last (ps_path ps)))"
    by (auto simp: append_assoc [symmetric] simp del: append_assoc)
qed

lemma not_reparse_and:
  "NOT FILE_ATTRIBUTE_REPARSE_POINT AND FILE_ATTRIBUTE_REPARSE_POINT = 0"
  "NOT FILE_ATTRIBUTE_REPARSE_POINT AND FILE_ATTRIBUTE_DIRECTORY = FILE_ATTRIBUTE_DIRECTORY"
  "NOT FILE_ATTRIBUTE_REPARSE_POINT AND FILE_ATTRIBUTE_READONLY = FILE_ATTRIBUTE_READONLY"
  unfolding FILE_ATTRIBUTE_REPARSE_POINT_def FILE_ATTRIBUTE_DIRECTORY_def FILE_ATTRIBUTE_READONLY_def
  by simp_all

lemma reparse_bit_cleared:
  "(a AND NOT FILE_ATTRIBUTE_REPARSE_POINT) AND FILE_ATTRIBUTE_REPARSE_POINT = 0"
  "(a AND NOT FILE_ATTRIBUTE_REPARSE_POINT) AND FILE_ATTRIBUTE_DIRECTORY = a AND FILE_ATTRIBUTE_DIRECTORY"
  "(a AND NOT FILE_ATTRIBUTE_REPARSE_POINT) AND FILE_ATTRIBUTE_READONLY = a AND FILE_ATTRIBUTE_READONLY"
  by (simp_all only: and.assoc not_reparse_and and_zero_eq
        bit.conj_zero_right)

lemma readlink_return_neg:
  "readlink_return r < 0 \<longleftrightarrow> (\<exists>en. r = Unresolved en)"
  by (cases r) (simp_all add: readlink_return_def)

lemma dirload_reparse_unresolved:
  assumes "dwFileAttributes f AND FILE_ATTRIBUTE_REPARSE_POINT = 0 \<or>
           readlink_return (git_win32_path_readlink_w e (cFileName f)) < 0"
  shows "dirload_reparse e f ps = Some ps"
  using assms by (auto simp: dirload_reparse_def readlink_return_neg)

text \<open>An entry as the enumeration delivers it, without the reparse attribute.\<close>

definition without_reparse :: "WIN32_FIND_DATAW \<Rightarrow> WIN32_FIND_DATAW" where
  "without_reparse f =
     f\<lparr>dwFileAttributes := dwFileAttributes f AND NOT FILE_ATTRIBUTE_REPARSE_POINT\<rparr>"

lemma dirload_entry_without_reparse:
  assumes "dwFileAttributes f AND FILE_ATTRIBUTE_REPARSE_POINT \<noteq> 0 \<longrightarrow>
           readlink_return (git_win32_path_readlink_w e (cFileName f)) < 0"
  shows "dirload_entry e n wp fl st en (without_reparse f) = dirload_entry e n wp fl st en f"
proof -
  have 1: "dirload_work_path e n wp (without_reparse f) = dirload_work_path e n wp f"
    by (simp add: dirload_work_path_def without_reparse_def)
  have 2: "dirload_stat e (without_reparse f) = dirload_stat e f"
    by (simp add: dirload_stat_def reparse_bit_cleared without_reparse_def)
  have 3: "dirload_reparse e (without_reparse f) ps = Some ps" for ps
    by (rule dirload_reparse_unresolved) (simp add: reparse_bit_cleared without_reparse_def)
  have 4: "dirload_reparse e f ps = Some ps" for ps
    by (rule dirload_reparse_unresolved) (use assms in blast)
  have 5: "cFileName (without_reparse f) = cFileName f" by (simp add: without_reparse_def)
  show ?thesis by (simp add: dirload_entry_def 1 2 3 4 5 split: option.splits prod.splits)
qed

text \<open>An entry as the loop body treats it: without the reparse attribute when it
  has the attribute and its resolution fails.\<close>

definition unresolved_as_plain :: "env \<Rightarrow> WIN32_FIND_DATAW \<Rightarrow> WIN32_FIND_DATAW" where
  "unresolved_as_plain e f =
     (if dwFileAttributes f AND FILE_ATTRIBUTE_REPARSE_POINT \<noteq> 0 \<and>
         readlink_return (git_win32_path_readlink_w e (cFileName f)) < 0
      then without_reparse f else f)"

lemma dirload_entry_unresolved_as_plain:
  "dirload_entry e n wp fl st en (unresolved_as_plain e f) = dirload_entry e n wp fl st en f"
  by (simp add: unresolved_as_plain_def dirload_entry_without_reparse)

lemma dirload_loop_unresolved_as_plain:
  "dirload_loop e n wp fl st en (unresolved_as_plain e f) (map (unresolved_as_plain e) rest)
     ending cs =
   dirload_loop e n wp fl st en f rest ending cs"
  by (induction rest arbitrary: f wp cs)
     (simp_all add: dirload_entry_unresolved_as_plain split: prod.splits entry_outcome.splits)

text \<open>The loop does not enumerate by itself: it does not depend on
  \<^verbatim>\<open>FindFirstFileExW\<close>.\<close>

lemma dirload_entry_enumeration:
  "dirload_entry (e\<lparr>FindFirstFileExW := g\<rparr>) n wp fl st en f = dirload_entry e n wp fl st en f"
proof -
  have 1: "dirload_work_path (e\<lparr>FindFirstFileExW := g\<rparr>) n wp f = dirload_work_path e n wp f"
    by (simp add: dirload_work_path_def git__utf16_to_8_def)
  have 2: "dirload_stat (e\<lparr>FindFirstFileExW := g\<rparr>) f = dirload_stat e f"
    by (simp add: dirload_stat_def)
  have r: "git_win32_path_readlink_w (e\<lparr>FindFirstFileExW := g\<rparr>) p =
           git_win32_path_readlink_w e p" for p
    by (auto simp: git_win32_path_readlink_w_def split: option.splits)
  have u: "git__utf16_to_8 (e\<lparr>FindFirstFileExW := g\<rparr>) k t = git__utf16_to_8 e k t" for k t
    by (simp add: git__utf16_to_8_def)
  have 3: "dirload_reparse (e\<lparr>FindFirstFileExW := g\<rparr>) f ps = dirload_reparse e f ps" for ps
    by (simp add: dirload_reparse_def r u cong: readlink_result.case_cong)
  show ?thesis by (simp add: dirload_entry_def 1 2 3 split: option.splits prod.splits)
qed

lemma dirload_loop_enumeration:
  "dirload_loop (e\<lparr>FindFirstFileExW := g\<rparr>) n wp fl st en f rest ending cs =
   dirload_loop e n wp fl st en f rest ending cs"
  by (induction rest arbitrary: f wp cs)
     (simp_all add: dirload_entry_enumeration split: prod.splits entry_outcome.splits)

lemma entry_outcome_not_Failed:
  assumes "dwFileAttributes f AND FILE_ATTRIBUTE_REPARSE_POINT = 0 \<or>
           readlink_return (git_win32_path_readlink_w e (cFileName f)) < 0"
  shows "entry_outcome_of e rp fl st en f \<noteq> Failed"
  using dirload_reparse_unresolved [OF assms]
  by (auto simp: entry_outcome_of_def dirload_entry_def dirload_finish_def
      split: option.splits prod.splits)

lemma entry_outcome_not_OutOfBounds:
  assumes "name_fits e (length rp) f"
  shows "entry_outcome_of e rp fl st en f \<noteq> OutOfBounds"
  using dirload_entry_prefix(3) [OF assms, of rp fl st en]
  by (simp add: entry_outcome_of_def)

text \<open>Claim C3, as amended. A failure of \<^verbatim>\<open>git_win32_path_readlink_w\<close> on an entry
  with the reparse attribute does not fail the listing, and the entry is not
  skipped for it: the listing of a directory that can be opened returns what it
  returns when the enumeration delivers, for every entry with the reparse
  attribute whose resolution fails, the same entry without that attribute. Such
  an entry is treated by its native attributes alone. When resolution fails for
  every entry with the reparse attribute, every name converts and fits behind
  the repository path in \<^verbatim>\<open>work_path\<close>, and the enumeration ends with
  \<^verbatim>\<open>ERROR_NO_MORE_FILES\<close>, the call returns 0, with every entry that the passes
  insert for the entries without the reparse attribute.\<close>

theorem dirload_unresolved_reparse_kept:
  assumes op: "git_win32__findfirstfile_filter e path = Some pathw"
      "FindFirstFileExW e pathw = Some (f, rest, ending)"
  shows "git_win32_path_dirload_with_stat e path prefix_len flags start_stat end_stat cs =
         git_win32_path_dirload_with_stat
           (e\<lparr>FindFirstFileExW :=
                 \<lambda>p. Some (unresolved_as_plain e f, map (unresolved_as_plain e) rest, ending)\<rparr>)
           path prefix_len flags start_stat end_stat cs \<and>
         (prefix_len \<le> length path \<and> ending = NoMoreFiles \<and>
          (\<forall>d \<in> set (f # rest). name_fits e (length path - prefix_len) d) \<and>
          (\<forall>d \<in> set (f # rest). dwFileAttributes d AND FILE_ATTRIBUTE_REPARSE_POINT \<noteq> 0 \<longrightarrow>
             readlink_return (git_win32_path_readlink_w e (cFileName d)) < 0) \<longrightarrow>
          git_win32_path_dirload_with_stat e path prefix_len flags start_stat end_stat cs =
            Returned 0 (git_vector_sort
              (cs @ inserted_entries e (drop prefix_len path) flags start_stat end_stat
                      (map without_reparse (f # rest)))))"
proof (intro conjI impI)
  show "git_win32_path_dirload_with_stat e path prefix_len flags start_stat end_stat cs =
         git_win32_path_dirload_with_stat
           (e\<lparr>FindFirstFileExW :=
                 \<lambda>p. Some (unresolved_as_plain e f, map (unresolved_as_plain e) rest, ending)\<rparr>)
           path prefix_len flags start_stat end_stat cs"
    using op
    by (simp add: git_win32_path_dirload_with_stat_def Let_def dirload_loop_enumeration
          dirload_loop_unresolved_as_plain)
next
  assume a: "prefix_len \<le> length path \<and> ending = NoMoreFiles \<and>
          (\<forall>d \<in> set (f # rest). name_fits e (length path - prefix_len) d) \<and>
          (\<forall>d \<in> set (f # rest). dwFileAttributes d AND FILE_ATTRIBUTE_REPARSE_POINT \<noteq> 0 \<longrightarrow>
             readlink_return (git_win32_path_readlink_w e (cFileName d)) < 0)"
  let ?rp = "drop prefix_len path"
  from a have pl: "prefix_len \<le> length path"
    and fit: "\<forall>d \<in> set (f # rest). name_fits e (length path - prefix_len) d"
    and en: "ending = NoMoreFiles"
    and unres: "\<forall>d \<in> set (f # rest). dwFileAttributes d AND FILE_ATTRIBUTE_REPARSE_POINT \<noteq> 0 \<longrightarrow>
             readlink_return (git_win32_path_readlink_w e (cFileName d)) < 0"
    by blast+
  have eq: "entry_outcome_of e ?rp flags start_stat end_stat (without_reparse d) =
            entry_outcome_of e ?rp flags start_stat end_stat d" if "d \<in> set (f # rest)" for d
  proof -
    from unres that have "dwFileAttributes d AND FILE_ATTRIBUTE_REPARSE_POINT \<noteq> 0 \<longrightarrow>
           readlink_return (git_win32_path_readlink_w e (cFileName d)) < 0" by blast
    from dirload_entry_without_reparse [OF this] show ?thesis
      by (simp add: entry_outcome_of_def)
  qed
  have ok: "\<forall>d \<in> set (f # rest).
          entry_outcome_of e ?rp flags start_stat end_stat d \<noteq> Failed \<and>
          entry_outcome_of e ?rp flags start_stat end_stat d \<noteq> OutOfBounds"
  proof
    fix d assume d: "d \<in> set (f # rest)"
    with fit have "name_fits e (length path - prefix_len) d" by blast
    then have "name_fits e (length ?rp) d" by simp
    moreover from unres d
    have "dwFileAttributes d AND FILE_ATTRIBUTE_REPARSE_POINT = 0 \<or>
           readlink_return (git_win32_path_readlink_w e (cFileName d)) < 0" by blast
    ultimately show "entry_outcome_of e ?rp flags start_stat end_stat d \<noteq> Failed \<and>
          entry_outcome_of e ?rp flags start_stat end_stat d \<noteq> OutOfBounds"
      using entry_outcome_not_Failed entry_outcome_not_OutOfBounds by blast
  qed
  have ins: "inserted_entries e ?rp flags start_stat end_stat (map without_reparse ds) =
             inserted_entries e ?rp flags start_stat end_stat ds" if "set ds \<subseteq> set (f # rest)" for ds
    using that
  proof (induction ds)
    case Nil
    show ?case by simp
  next
    case (Cons a ds)
    then have "a \<in> set (f # rest)" and "set ds \<subseteq> set (f # rest)" by simp_all
    with eq [of a] Cons.IH show ?case by simp
  qed
  show "git_win32_path_dirload_with_stat e path prefix_len flags start_stat end_stat cs =
            Returned 0 (git_vector_sort
              (cs @ inserted_entries e (drop prefix_len path) flags start_stat end_stat
                      (map without_reparse (f # rest))))"
    unfolding dirload_opened [OF op pl fit] en ins [OF subset_refl]
    by (rule outcomes_result_complete [OF ok])
qed

lemma git__strncmp_take_eq:
  "take n a = take n b \<Longrightarrow> git__strncmp a b n = 0"
  by (induction a b n rule: git__strncmp.induct) auto

lemma git__strncasecmp_take_eq:
  "take n a = take n b \<Longrightarrow> git__strncasecmp a b n = 0"
  unfolding git__strncasecmp_def
  by (rule git__strncmp_take_eq) (simp add: take_map)

lemma dirload_in_range_split:
  "dirload_in_range fl st en p n \<longleftrightarrow>
     dirload_in_range fl st None p n \<and> dirload_in_range fl None en p n"
  by (simp add: dirload_in_range_def Let_def)

lemma dirload_in_range_prefix:
  assumes "(start_stat = Some b \<and> strict_prefix p b \<and>
              dirload_in_range fl None end_stat p (length p)) \<or>
           (end_stat = Some b \<and> strict_prefix b p \<and>
              dirload_in_range fl start_stat None p (length p))"
  shows "dirload_in_range fl start_stat end_stat p (length p)"
proof -
  have 1: "take (min (length b) (length p)) p = take (min (length b) (length p)) b"
    if "strict_prefix p b \<or> strict_prefix b p"
    using that by (auto simp: strict_prefix_def prefix_def min_def)
  have 2: "dirload_in_range fl (Some b) None p (length p)" if "strict_prefix p b"
    using 1 that by (simp add: dirload_in_range_def git__strncmp_take_eq git__strncasecmp_take_eq)
  have 3: "dirload_in_range fl None (Some b) p (length p)" if "strict_prefix b p"
    using 1 that by (simp add: dirload_in_range_def git__strncmp_take_eq git__strncasecmp_take_eq)
  from assms 2 3 show ?thesis
    by (subst dirload_in_range_split) blast
qed

lemma strict_prefix_less:
  assumes "strict_prefix (a::string) b"
  shows "a < b"
proof -
  from assms obtain ys where ys: "b = a @ ys" "ys \<noteq> []"
    by (auto simp: strict_prefix_def prefix_def)
  then obtain z zs where "b = a @ z # zs" by (cases ys) auto
  then show ?thesis by (simp add: list_less_def lexord_append_rightI)
qed

text \<open>What the comparison selected by the flags compares: the bytes, or the bytes
  folded to lower case.\<close>

definition strncomp_fold :: "32 word \<Rightarrow> string \<Rightarrow> string" where
  "strncomp_fold flags s =
     (if flags AND GIT_PATH_DIR_IGNORE_CASE \<noteq> 0 then map git__tolower s else s)"

lemma git__strncmp_neg: "git__strncmp a b n < 0 \<longleftrightarrow> take n a < take n b"
  by (induction a b n rule: git__strncmp.induct) auto

lemma git__strncmp_pos: "git__strncmp a b n > 0 \<longleftrightarrow> take n b < take n a"
  by (induction a b n rule: git__strncmp.induct) auto

lemma take_min_length:
  "take (min m (length xs)) xs = take m xs" "take (min (length xs) m) xs = take m xs"
  by (simp_all add: min_def)

lemma dirload_in_range_common_length:
  "dirload_in_range flags start_stat end_stat p (length p) \<longleftrightarrow>
     (\<forall>b. start_stat = Some b \<longrightarrow>
        \<not> strncomp_fold flags (take (length b) p) < strncomp_fold flags (take (length p) b)) \<and>
     (\<forall>b. end_stat = Some b \<longrightarrow>
        \<not> strncomp_fold flags (take (length p) b) < strncomp_fold flags (take (length b) p))"
proof -
  have t: "take (min (length b) (length p)) p = take (length b) p"
    "take (min (length b) (length p)) b = take (length p) b"
    "take (min (length b) (length p)) (map git__tolower p) = map git__tolower (take (length b) p)"
    "take (min (length b) (length p)) (map git__tolower b) = map git__tolower (take (length p) b)"
    for b
    by (simp_all add: min_def take_map)
  have g: "(m \<noteq> 0 \<and> git__strncmp x y m < 0) \<longleftrightarrow> take m x < take m y"
    "(m \<noteq> 0 \<and> git__strncmp x y m > 0) \<longleftrightarrow> take m y < take m x" for x y m
    by (cases "m = 0"; simp add: git__strncmp_neg git__strncmp_pos)+
  have s: "(min (length b) (length p) \<noteq> 0 \<and>
            git__strncmp p b (min (length b) (length p)) < 0) \<longleftrightarrow>
           take (length b) p < take (length p) b" for b
    using g(1) [of "min (length b) (length p)" p b] unfolding t .
  have e: "(min (length b) (length p) \<noteq> 0 \<and>
            git__strncmp p b (min (length b) (length p)) > 0) \<longleftrightarrow>
           take (length p) b < take (length b) p" for b
    using g(2) [of "min (length b) (length p)" p b] unfolding t .
  have sc: "(min (length b) (length p) \<noteq> 0 \<and>
            git__strncasecmp p b (min (length b) (length p)) < 0) \<longleftrightarrow>
           map git__tolower (take (length b) p) < map git__tolower (take (length p) b)" for b
    using g(1) [of "min (length b) (length p)" "map git__tolower p" "map git__tolower b"]
    unfolding t git__strncasecmp_def .
  have ec: "(min (length b) (length p) \<noteq> 0 \<and>
            git__strncasecmp p b (min (length b) (length p)) > 0) \<longleftrightarrow>
           map git__tolower (take (length p) b) < map git__tolower (take (length b) p)" for b
    using g(2) [of "min (length b) (length p)" "map git__tolower p" "map git__tolower b"]
    unfolding t git__strncasecmp_def .
  have s': "(b = [] \<or> p = [] \<or> \<not> git__strncmp p b (min (length b) (length p)) < 0) \<longleftrightarrow>
           \<not> take (length b) p < take (length p) b" for b
    using s [of b] by auto
  have e': "(b = [] \<or> p = [] \<or> \<not> 0 < git__strncmp p b (min (length b) (length p))) \<longleftrightarrow>
           \<not> take (length p) b < take (length b) p" for b
    using e [of b] by auto
  have sc': "(b = [] \<or> p = [] \<or> \<not> git__strncasecmp p b (min (length b) (length p)) < 0) \<longleftrightarrow>
           \<not> map git__tolower (take (length b) p) < map git__tolower (take (length p) b)" for b
    using sc [of b] by auto
  have ec': "(b = [] \<or> p = [] \<or> \<not> 0 < git__strncasecmp p b (min (length b) (length p))) \<longleftrightarrow>
           \<not> map git__tolower (take (length p) b) < map git__tolower (take (length b) p)" for b
    using ec [of b] by auto
  show ?thesis
    by (cases start_stat; cases end_stat)
       (simp_all add: dirload_in_range_def strncomp_fold_def s' e' sc' ec')
qed

text \<open>Claim C10. The bounds are compared over \<open>min\<close> of the length of the bound
  and the length of the path only: a path \<open>p\<close> passes the range tests exactly
  when its first letters, as many as the start bound has, are not before the
  first letters of the start bound, as many as \<open>p\<close> has, and likewise for the end
  bound. Let a listing return 0 in which every name converts and fits behind the
  repository path in \<^verbatim>\<open>work_path\<close>, and let \<open>d\<close> be one of its entries, not a
  pseudo-entry and without the reparse attribute, whose name converts to \<open>s\<close>;
  its path is \<open>p\<close>, the repository path followed by \<open>s\<close>. If \<open>p\<close> is a strict
  prefix of the start bound and passes the test against the end bound, or
  strictly extends the end bound and passes the test against the start bound,
  then the entry that the loop body builds for \<open>d\<close> is in the result, with the
  path \<open>p\<close> (followed by \<^verbatim>\<open>/\<close> for a directory), although \<open>p\<close> is
  lexicographically before the start bound, or after the end bound.\<close>

theorem dirload_range_compares_common_length:
  assumes res: "git_win32_path_dirload_with_stat e path prefix_len flags start_stat end_stat cs0 =
                  Returned 0 cs"
    and op: "git_win32__findfirstfile_filter e path = Some pathw"
       "FindFirstFileExW e pathw = Some (f, rest, ending)"
    and fit: "\<forall>d' \<in> set (f # rest). name_fits e (length path - prefix_len) d'"
    and d: "d \<in> set (f # rest)" "\<not> git_path_is_dot_or_dotdotW (cFileName d)"
       "dwFileAttributes d AND FILE_ATTRIBUTE_REPARSE_POINT = 0"
    and conv: "wide_to_utf8 e (c_str (cFileName d)) = Some s"
    and p: "p = drop prefix_len path @ s" "CHR 0x00 \<notin> set p"
    and out: "(start_stat = Some b \<and> strict_prefix p b \<and>
                 dirload_in_range flags None end_stat p (length p)) \<or>
              (end_stat = Some b \<and> strict_prefix b p \<and>
                 dirload_in_range flags start_stat None p (length p))"
  shows "(dirload_in_range flags start_stat end_stat p (length p) \<longleftrightarrow>
            (\<forall>b. start_stat = Some b \<longrightarrow>
               \<not> strncomp_fold flags (take (length b) p) <
                 strncomp_fold flags (take (length p) b)) \<and>
            (\<forall>b. end_stat = Some b \<longrightarrow>
               \<not> strncomp_fold flags (take (length p) b) <
                 strncomp_fold flags (take (length b) p))) \<and>
         (\<exists>ps \<in> set cs.
            dirload_finish \<lparr>ps_st = dirload_stat e d, ps_path_len = length p, ps_path = p\<rparr> =
              Inserted ps \<and>
            (ps_path ps = p \<or> ps_path ps = p @ ''/'')) \<and>
         (p < b \<and> start_stat = Some b \<or> b < p \<and> end_stat = Some b)"
proof -
  let ?rp = "drop prefix_len path"
  have pl: "prefix_len \<le> length path"
    using res by (auto simp: git_win32_path_dirload_with_stat_def split: if_splits)
  from fit d(1) have "name_fits e (length path - prefix_len) d" by blast
  with conv have fits: "length ?rp + length s < PATH__MAX_UNC_LEN"
    by (simp add: name_fits_def)
  have rng: "dirload_in_range flags start_stat end_stat p (length p)"
    by (rule dirload_in_range_prefix [OF out])
  have rep: "dirload_reparse e d ps = Some ps" for ps
    by (rule dirload_reparse_unresolved) (simp add: d(3))
  have de: "entry_outcome_of e ?rp flags start_stat end_stat d =
          dirload_finish \<lparr>ps_st = dirload_stat e d, ps_path_len = length p, ps_path = p\<rparr>"
    using rng p by (simp add: entry_outcome_fits [OF conv fits] d(2) rep cstring_id)
  have md: "S_ISDIR (st_mode (dirload_stat e d)) \<or> S_ISREG (st_mode (dirload_stat e d))"
    by (simp add: dirload_stat_def S_ISDIR_def S_ISREG_def S_IFMT_def S_IFDIR_def S_IFREG_def
        S_IREAD_def S_IWRITE_def)
  obtain ps where ins: "entry_outcome_of e ?rp flags start_stat end_stat d = Inserted ps"
    and pp: "ps_path ps = p \<or> ps_path ps = p @ ''/''"
  proof (cases "S_ISDIR (st_mode (dirload_stat e d))")
    case True
    with de that show ?thesis by (simp add: dirload_finish_def)
  next
    case False
    with md de that show ?thesis by (simp add: dirload_finish_def)
  qed
  from res dirload_opened [OF op pl fit]
  have "outcomes_result (map (entry_outcome_of e ?rp flags start_stat end_stat) (f # rest))
          ending cs0 = Returned 0 cs" by simp
  from outcomes_result_success [OF this] ins d(1)
  have "ps \<in> set cs" by (auto simp: git_vector_sort_def set_inserted_entries)
  with pp ins de
  have 2: "\<exists>ps \<in> set cs.
            dirload_finish \<lparr>ps_st = dirload_stat e d, ps_path_len = length p, ps_path = p\<rparr> =
              Inserted ps \<and>
            (ps_path ps = p \<or> ps_path ps = p @ ''/'')" by auto
  from out strict_prefix_less
  have 3: "p < b \<and> start_stat = Some b \<or> b < p \<and> end_stat = Some b" by blast
  from dirload_in_range_common_length [of flags start_stat end_stat p] 2 3
  show ?thesis by blast
qed

lemma tolower_five:
  "git__tolower CHR ''a'' = CHR ''a''" "git__tolower CHR ''b'' = CHR ''b''"
  "git__tolower CHR ''c'' = CHR ''c''" "git__tolower CHR ''d'' = CHR ''d''"
  "git__tolower CHR ''e'' = CHR ''e''"
  by (simp_all add: git__tolower_def)

lemma in_range_five:
  "\<not> dirload_in_range fl (Some ''b'') (Some ''d'') ''a'' (Suc 0)"
  "dirload_in_range fl (Some ''b'') (Some ''d'') ''b'' (Suc 0)"
  "dirload_in_range fl (Some ''b'') (Some ''d'') ''c'' (Suc 0)"
  "dirload_in_range fl (Some ''b'') (Some ''d'') ''d'' (Suc 0)"
  "\<not> dirload_in_range fl (Some ''b'') (Some ''d'') ''e'' (Suc 0)"
  by (simp_all add: dirload_in_range_def git__strncasecmp_def tolower_five)

lemma file_mode:
  assumes "dwFileAttributes d AND FILE_ATTRIBUTE_DIRECTORY = 0"
  shows "\<not> S_ISDIR (st_mode (dirload_stat e d))" "S_ISREG (st_mode (dirload_stat e d))"
  using assms
  by (simp_all add: dirload_stat_def S_ISDIR_def S_ISREG_def S_IFMT_def S_IFDIR_def S_IFREG_def
        S_IREAD_def S_IWRITE_def)

lemma dirload_entry_five:
  assumes n: "n \<in> {''a'', ''b'', ''c'', ''d'', ''e''}"
    and name: "c_str (cFileName d) = L n"
    and conv: "wide_to_utf8 e (L n) = Some n"
    and plain: "dwFileAttributes d AND FILE_ATTRIBUTE_REPARSE_POINT = 0"
      "dwFileAttributes d AND FILE_ATTRIBUTE_DIRECTORY = 0"
  shows "entry_outcome_of e [] fl (Some ''b'') (Some ''d'') d =
           (if n \<in> {''b'', ''c'', ''d''}
            then Inserted \<lparr>ps_st = dirload_stat e d, ps_path_len = Suc 0, ps_path = n\<rparr>
            else Skipped)"
proof -
  have nd: "\<not> git_path_is_dot_or_dotdotW (cFileName d)"
    using n name by (auto simp: git_path_is_dot_or_dotdotW_def L_def DOT_def)
  have len: "length n = 1" using n by auto
  have cs: "cstring n = n" using n by (auto simp: cstring_def)
  have conv': "wide_to_utf8 e (c_str (cFileName d)) = Some n" using conv name by simp
  have fits: "length ([]::string) + length n < PATH__MAX_UNC_LEN"
    using len by (simp add: PATH__MAX_UNC_LEN_def)
  have rep: "dirload_reparse e d ps = Some ps" for ps
    by (rule dirload_reparse_unresolved) (simp add: plain)
  have fin: "dirload_finish \<lparr>ps_st = dirload_stat e d, ps_path_len = Suc 0, ps_path = m\<rparr> =
      Inserted \<lparr>ps_st = dirload_stat e d, ps_path_len = Suc 0, ps_path = m\<rparr>" for m
    using file_mode [OF plain(2), of e] by (simp add: dirload_finish_def)
  from n show ?thesis
    unfolding entry_outcome_fits [OF conv' fits]
    by (auto simp: nd rep fin in_range_five cs len)
qed

lemma inserted_five:
  assumes "\<forall>d \<in> set ds. \<exists>n \<in> {''a'', ''b'', ''c'', ''d'', ''e''}. c_str (cFileName d) = L n \<and>
             dwFileAttributes d AND FILE_ATTRIBUTE_REPARSE_POINT = 0 \<and>
             dwFileAttributes d AND FILE_ATTRIBUTE_DIRECTORY = 0"
    and "\<forall>n \<in> {''a'', ''b'', ''c'', ''d'', ''e''}. wide_to_utf8 e (L n) = Some n"
  shows "map ps_path (inserted_entries e [] fl (Some ''b'') (Some ''d'') ds) =
           filter (\<lambda>n. n \<in> {''b'', ''c'', ''d''})
             (map (\<lambda>d. the (wide_to_utf8 e (c_str (cFileName d)))) ds)"
  using assms(1)
proof (induction ds)
  case Nil
  then show ?case by simp
next
  case (Cons d ds)
  from Cons.prems obtain n where n: "n \<in> {''a'', ''b'', ''c'', ''d'', ''e''}"
    "c_str (cFileName d) = L n" "dwFileAttributes d AND FILE_ATTRIBUTE_REPARSE_POINT = 0"
    "dwFileAttributes d AND FILE_ATTRIBUTE_DIRECTORY = 0"
    by auto
  from assms(2) n(1) have conv: "wide_to_utf8 e (L n) = Some n" by blast
  note de = dirload_entry_five [OF n(1,2) conv n(3,4), of fl]
  from Cons.IH Cons.prems have ih: "map ps_path (inserted_entries e [] fl (Some ''b'') (Some ''d'') ds) =
           filter (\<lambda>n. n \<in> {''b'', ''c'', ''d''})
             (map (\<lambda>d. the (wide_to_utf8 e (c_str (cFileName d)))) ds)" by simp
  show ?case by (simp add: de ih n(2) conv)
qed

lemma no_failure_five:
  assumes "\<forall>d \<in> set ds. \<exists>n \<in> {''a'', ''b'', ''c'', ''d'', ''e''}. c_str (cFileName d) = L n \<and>
             dwFileAttributes d AND FILE_ATTRIBUTE_REPARSE_POINT = 0 \<and>
             dwFileAttributes d AND FILE_ATTRIBUTE_DIRECTORY = 0"
    and "\<forall>n \<in> {''a'', ''b'', ''c'', ''d'', ''e''}. wide_to_utf8 e (L n) = Some n"
  shows "\<forall>d \<in> set ds. entry_outcome_of e [] fl (Some ''b'') (Some ''d'') d \<noteq> Failed \<and>
           entry_outcome_of e [] fl (Some ''b'') (Some ''d'') d \<noteq> OutOfBounds"
proof
  fix d assume "d \<in> set ds"
  with assms(1) obtain n where n: "n \<in> {''a'', ''b'', ''c'', ''d'', ''e''}"
    "c_str (cFileName d) = L n" "dwFileAttributes d AND FILE_ATTRIBUTE_REPARSE_POINT = 0"
    "dwFileAttributes d AND FILE_ATTRIBUTE_DIRECTORY = 0"
    by blast
  from assms(2) n(1) have conv: "wide_to_utf8 e (L n) = Some n" by blast
  show "entry_outcome_of e [] fl (Some ''b'') (Some ''d'') d \<noteq> Failed \<and>
           entry_outcome_of e [] fl (Some ''b'') (Some ''d'') d \<noteq> OutOfBounds"
    by (simp add: dirload_entry_five [OF n(1,2) conv n(3,4)])
qed

lemma fits_five:
  assumes "\<forall>d \<in> set ds. \<exists>n \<in> {''a'', ''b'', ''c'', ''d'', ''e''}. c_str (cFileName d) = L n \<and>
             dwFileAttributes d AND FILE_ATTRIBUTE_REPARSE_POINT = 0 \<and>
             dwFileAttributes d AND FILE_ATTRIBUTE_DIRECTORY = 0"
    and "\<forall>n \<in> {''a'', ''b'', ''c'', ''d'', ''e''}. wide_to_utf8 e (L n) = Some n"
  shows "\<forall>d \<in> set ds. name_fits e 0 d"
proof
  fix d assume "d \<in> set ds"
  with assms(1) obtain n where n: "n \<in> {''a'', ''b'', ''c'', ''d'', ''e''}"
    "c_str (cFileName d) = L n" by blast
  from assms(2) n(1) have conv: "wide_to_utf8 e (L n) = Some n" by blast
  have "length n = 1" using n(1) by auto
  then show "name_fits e 0 d"
    by (simp add: name_fits_def n(2) conv PATH__MAX_UNC_LEN_def)
qed

text \<open>Claim C5. A directory is listed from its root (the repository path is empty)
  into an empty collection; its entries are plain files named \<^verbatim>\<open>a\<close>, \<^verbatim>\<open>b\<close>, \<^verbatim>\<open>c\<close>,
  \<^verbatim>\<open>d\<close> and \<^verbatim>\<open>e\<close>, delivered in any order. With the bounds \<^verbatim>\<open>b\<close> and \<^verbatim>\<open>d\<close> the call
  returns 0 and the collection holds exactly \<^verbatim>\<open>b\<close>, \<^verbatim>\<open>c\<close>, \<^verbatim>\<open>d\<close>, in this order,
  whatever the flags.\<close>

theorem dirload_range_example:
  assumes op: "git_win32__findfirstfile_filter e path = Some pathw"
      "FindFirstFileExW e pathw = Some (f, rest, NoMoreFiles)"
    and names: "distinct (map (\<lambda>d. c_str (cFileName d)) (f # rest))"
      "set (map (\<lambda>d. c_str (cFileName d)) (f # rest)) = {L ''a'', L ''b'', L ''c'', L ''d'', L ''e''}"
    and conv: "\<forall>n \<in> {''a'', ''b'', ''c'', ''d'', ''e''}. wide_to_utf8 e (L n) = Some n"
    and plain: "\<forall>d \<in> set (f # rest).
        dwFileAttributes d AND FILE_ATTRIBUTE_REPARSE_POINT = 0 \<and>
        dwFileAttributes d AND FILE_ATTRIBUTE_DIRECTORY = 0"
  shows "\<exists>cs. git_win32_path_dirload_with_stat e path (length path) flags
                 (Some ''b'') (Some ''d'') [] = Returned 0 cs \<and>
              map ps_path cs = [''b'', ''c'', ''d'']"
proof -
  let ?ds = "f # rest"
  let ?name = "\<lambda>d. c_str (cFileName d)"
  let ?u = "\<lambda>d. the (wide_to_utf8 e (c_str (cFileName d)))"
  let ?X = "inserted_entries e [] flags (Some ''b'') (Some ''d'') ?ds"
  let ?k = "\<lambda>ps. cstring (ps_path ps)"
  have all: "\<forall>d \<in> set ?ds. \<exists>n \<in> {''a'', ''b'', ''c'', ''d'', ''e''}. c_str (cFileName d) = L n \<and>
             dwFileAttributes d AND FILE_ATTRIBUTE_REPARSE_POINT = 0 \<and>
             dwFileAttributes d AND FILE_ATTRIBUTE_DIRECTORY = 0"
  proof
    fix d assume d: "d \<in> set ?ds"
    then have "?name d \<in> set (map ?name ?ds)" by (simp del: list.map list.set)
    with names(2) have "?name d \<in> {L ''a'', L ''b'', L ''c'', L ''d'', L ''e''}" by simp
    with plain d show "\<exists>n \<in> {''a'', ''b'', ''c'', ''d'', ''e''}. c_str (cFileName d) = L n \<and>
             dwFileAttributes d AND FILE_ATTRIBUTE_REPARSE_POINT = 0 \<and>
             dwFileAttributes d AND FILE_ATTRIBUTE_DIRECTORY = 0" by blast
  qed
  have fit: "\<forall>d \<in> set ?ds. name_fits e (length path - length path) d"
    using fits_five [OF all conv] by simp
  have res: "git_win32_path_dirload_with_stat e path (length path) flags
                 (Some ''b'') (Some ''d'') [] = Returned 0 (git_vector_sort ?X)"
    using dirload_opened [OF op order_refl fit, of flags "Some ''b''" "Some ''d''" "[]"]
      outcomes_result_complete [OF no_failure_five [OF all conv], of flags "[]"]
    by simp
  have paths: "map ps_path ?X = filter (\<lambda>n. n \<in> {''b'', ''c'', ''d''}) (map ?u ?ds)"
    by (rule inserted_five [OF all conv])
  have u: "?u d = n" if "?name d = L n" "n \<in> {''a'', ''b'', ''c'', ''d'', ''e''}" for d n
    using that conv by auto
  have inj: "inj_on (\<lambda>w. the (wide_to_utf8 e w)) {L ''a'', L ''b'', L ''c'', L ''d'', L ''e''}"
    using conv by (auto simp: inj_on_def)
  define ws where "ws = map ?name ?ds"
  have ws: "distinct ws" "set ws = {L ''a'', L ''b'', L ''c'', L ''d'', L ''e''}"
    using names by (simp_all add: ws_def)
  have mu: "map ?u ?ds = map (\<lambda>w. the (wide_to_utf8 e w)) ws"
    by (simp add: ws_def)
  have du: "distinct (map ?u ?ds)"
    unfolding mu using ws inj by (simp add: distinct_map)
  have "set (map ?u ?ds) = (\<lambda>w. the (wide_to_utf8 e w)) ` set ws"
    unfolding mu by simp
  also have "\<dots> = {''a'', ''b'', ''c'', ''d'', ''e''}"
    unfolding ws(2) using conv by simp
  finally have su: "set (map ?u ?ds) = {''a'', ''b'', ''c'', ''d'', ''e''}" .
  define X where "X = ?X"
  have d1: "distinct (map ps_path X)"
    unfolding X_def paths using du by (rule distinct_filter)
  have s1: "set (map ps_path X) = {''b'', ''c'', ''d''}"
    unfolding X_def paths set_filter su by auto
  have kp: "cstring (ps_path ps) = ps_path ps" if "ps \<in> set X" for ps
  proof -
    from that have "ps_path ps \<in> set (map ps_path X)" by simp
    with s1 have "ps_path ps \<in> {''b'', ''c'', ''d''}" by simp
    then show ?thesis by (auto simp: cstring_def)
  qed
  have mk: "map ?k xs = map ps_path xs" if "set xs \<subseteq> set X" for xs
    using that kp by (induction xs) simp_all
  have d2: "distinct (map ?k X)" and s2: "set (map ?k X) = {''b'', ''c'', ''d''}"
    unfolding mk [OF subset_refl] using d1 s1 by blast+
  have sk: "map ps_path (git_vector_sort X) = map ?k (git_vector_sort X)"
    by (rule mk [symmetric]) (simp add: git_vector_sort_def)
  have fin: "map ps_path (git_vector_sort X) = [''b'', ''c'', ''d'']"
    unfolding sk
  proof (rule sorted_distinct_set_unique)
    show "sorted (map ?k (git_vector_sort X))" by (simp add: git_vector_sort_def)
    show "distinct (map ?k (git_vector_sort X))"
      using d2 by (simp add: git_vector_sort_def distinct_map)
    show "sorted [''b'', ''c'', ''d'']" by simp
    show "distinct [''b'', ''c'', ''d'']" by simp
    show "set (map ?k (git_vector_sort X)) = set [''b'', ''c'', ''d'']"
      using s2 by (simp add: git_vector_sort_def)
  qed
  show ?thesis
    by (rule exI [of _ "git_vector_sort X"]) (simp only: res fin X_def [symmetric] simp_thms)
qed


section \<open>The properties on an example platform\<close>

lemma of_char_lt_256: "(of_char c :: nat) < 256"
proof -
  have "(of_char c :: nat) mod 256 = of_char c" by (rule of_char_mod_256)
  moreover have "(of_char c :: nat) mod 256 < 256" by simp
  ultimately show ?thesis by simp
qed

lemma unat_of_char: "unat (of_char c :: 16 word) = of_char c"
proof -
  have "(of_char c :: 16 word) = of_nat (of_char c)" by (simp add: of_nat_of_char)
  then have "unat (of_char c :: 16 word) = unat (of_nat (of_char c :: nat) :: 16 word)" by simp
  also have "\<dots> = of_char c"
  proof -
    have "(of_char c :: nat) < 65536" by (rule less_trans [OF of_char_lt_256]) simp
    then show ?thesis by (simp add: unat_of_nat)
  qed
  finally show ?thesis .
qed

lemma char_of_unat_of_char: "char_of (unat (of_char c :: 16 word)) = c"
  by (simp add: unat_of_char)

lemma of_char_word_eq_iff: "(of_char c :: 16 word) = of_char d \<longleftrightarrow> c = d"
  using char_of_unat_of_char by metis

lemma of_char_word_less: "(of_char c :: 16 word) < 0x80 \<longleftrightarrow> (of_char c :: nat) < 128"
  by (simp add: word_less_nat_alt unat_of_char)


text \<open>An example platform: the directory that is enumerated holds the entries
  \<open>fs\<close>, the names are ASCII, and no reparse point can be opened.\<close>

definition example_entry :: "string \<Rightarrow> 32 word \<Rightarrow> WIN32_FIND_DATAW" where
  "example_entry name attrs =
     \<lparr>dwFileAttributes = attrs, ftCreationTime = 0, ftLastAccessTime = 0, ftLastWriteTime = 0,
      nFileSizeHigh = 0, nFileSizeLow = 0, cFileName = L name @ [NUL]\<rparr>"

definition example_env :: "WIN32_FIND_DATAW list \<Rightarrow> env" where
  "example_env fs =
     \<lparr>CreateFileW = (\<lambda>p. None),
      DeviceIoControl = (\<lambda>h. None),
      FindFirstFileExW = (\<lambda>p. case fs of [] \<Rightarrow> None | f # rest \<Rightarrow> Some (f, rest, NoMoreFiles)),
      GetCurrentDirectoryW = Cwd (L ''C:'' @ [BSLASH] @ L ''w''),
      getdrive = 3,
      wide_to_utf8 = (\<lambda>w. if \<forall>c \<in> set w. c < 0x80 then Some (map (\<lambda>c. char_of (unat c)) w) else None),
      utf8_to_wide = (\<lambda>s. if \<forall>c \<in> set s. c < CHR 0x80 then Some (L s) else None),
      git_win32__canonicalize_path = (\<lambda>t n. (t, n)),
      git_win32__findfirstfile_filter = (\<lambda>p. Some (L p @ L ''*'')),
      filetime_to_time_t = (\<lambda>t. 0),
      MAX_PATH = 260, GIT_WIN_PATH_UTF16 = 261, GIT_WIN_PATH_UTF8 = 778\<rparr>"



lemma example_env_simps [simp]:
  "CreateFileW (example_env fs) p = None"
  "FindFirstFileExW (example_env (f # rest)) p = Some (f, rest, NoMoreFiles)"
  "git_win32__findfirstfile_filter (example_env fs) s = Some (L s @ L ''*'')"
  "getdrive (example_env fs) = 3"
  "filetime_to_time_t (example_env fs) t = 0"
  by (simp_all add: example_env_def)

lemma example_entry_simps [simp]:
  "dwFileAttributes (example_entry n a) = a"
  "cFileName (example_entry n a) = L n @ [NUL]"
  "nFileSizeHigh (example_entry n a) = 0" "nFileSizeLow (example_entry n a) = 0"
  "ftCreationTime (example_entry n a) = 0" "ftLastAccessTime (example_entry n a) = 0"
  "ftLastWriteTime (example_entry n a) = 0"
  by (simp_all add: example_entry_def)

lemma example_readlink [simp]:
  "git_win32_path_readlink_w (example_env fs) p = Unresolved (Some ENOENT)"
  by (simp add: git_win32_path_readlink_w_def)


lemma of_char_word_nul: "(of_char c :: wchar) = NUL \<longleftrightarrow> c = CHR 0x00"
  using of_char_word_eq_iff [of c "CHR 0x00"] by (simp add: NUL_def)

lemma c_str_L: "\<forall>c \<in> set n. c \<noteq> CHR 0x00 \<Longrightarrow> c_str (L n @ NUL # w) = L n"
  by (induction n) (simp_all add: c_str_def L_def of_char_word_nul)

lemma example_wide_to_utf8:
  "\<forall>c \<in> set n. (of_char c :: nat) < 128 \<Longrightarrow> wide_to_utf8 (example_env fs) (L n) = Some n"
  by (simp add: example_env_def L_def of_char_word_less char_of_unat_of_char comp_def)


lemma example_name:
  assumes "\<forall>c \<in> set n. (of_char c :: nat) < 128 \<and> c \<noteq> CHR 0x00"
  shows "wide_to_utf8 (example_env fs) (c_str (cFileName (example_entry n a))) = Some n"
  using assms by (simp add: c_str_L example_wide_to_utf8)

lemma example_fits:
  assumes "\<forall>c \<in> set n. (of_char c :: nat) < 128 \<and> c \<noteq> CHR 0x00"
    and "k + length n < PATH__MAX_UNC_LEN"
  shows "name_fits (example_env fs) k (example_entry n a)"
  using assms(2) example_name [OF assms(1), of fs a] by (simp add: name_fits_def)

lemma example_listing:
  assumes "\<forall>d \<in> set (f # rest). name_fits (example_env (f # rest)) (length path - k) d"
    and "k \<le> length path"
  shows "git_win32_path_dirload_with_stat (example_env (f # rest)) path k fl st en cs =
           Returned 0 (git_vector_sort
             (cs @ inserted_entries (example_env (f # rest)) (drop k path) fl st en (f # rest)))"
proof -
  let ?e = "example_env (f # rest)"
  have ok: "\<forall>d \<in> set (f # rest).
          entry_outcome_of ?e (drop k path) fl st en d \<noteq> Failed \<and>
          entry_outcome_of ?e (drop k path) fl st en d \<noteq> OutOfBounds"
  proof
    fix d assume "d \<in> set (f # rest)"
    with assms(1) have "name_fits ?e (length path - k) d" by blast
    then have "name_fits ?e (length (drop k path)) d" by simp
    from entry_outcome_not_OutOfBounds [OF this]
      entry_outcome_not_Failed [of d ?e "drop k path" fl st en]
    show "entry_outcome_of ?e (drop k path) fl st en d \<noteq> Failed \<and>
          entry_outcome_of ?e (drop k path) fl st en d \<noteq> OutOfBounds"
      by (simp add: readlink_return_def)
  qed
  have op: "git_win32__findfirstfile_filter ?e path = Some (L path @ L ''*'')"
    "FindFirstFileExW ?e (L path @ L ''*'') = Some (f, rest, NoMoreFiles)" by simp_all
  show ?thesis
    unfolding dirload_opened [OF op assms(2,1)]
    by (rule outcomes_result_complete [OF ok])
qed

lemma L_inject: "L a = L b \<longleftrightarrow> a = b"
proof -
  have "inj (of_char :: char \<Rightarrow> wchar)" by (simp add: inj_def of_char_word_eq_iff)
  then show ?thesis unfolding L_def by (rule inj_map_eq_map)
qed

lemma example_not_dot:
  assumes "n \<noteq> ''.''" "n \<noteq> ''..''" "\<forall>c \<in> set n. c \<noteq> CHR 0x00"
  shows "\<not> git_path_is_dot_or_dotdotW (L n @ [NUL])"
proof -
  have "[DOT] = L ''.''" "[DOT, DOT] = L ''..''" by (simp_all add: L_def DOT_def)
  with assms show ?thesis
    by (simp add: git_path_is_dot_or_dotdotW_def c_str_L L_inject)
qed

lemma example_entry_outcome:
  assumes "\<forall>c \<in> set n. (of_char c :: nat) < 128 \<and> c \<noteq> CHR 0x00"
    and "length rp + length n < PATH__MAX_UNC_LEN"
    and "\<not> git_path_is_dot_or_dotdotW (L n @ [NUL])"
    and "CHR 0x00 \<notin> set rp"
  shows "entry_outcome_of (example_env fs) rp fl st en (example_entry n a) =
           (if dirload_in_range fl st en (rp @ n) (length rp + length n)
            then dirload_finish \<lparr>ps_st = dirload_stat (example_env fs) (example_entry n a),
                    ps_path_len = length rp + length n, ps_path = rp @ n\<rparr>
            else Skipped)"
proof -
  have rep: "dirload_reparse (example_env fs) (example_entry n a) ps = Some ps" for ps
    by (rule dirload_reparse_unresolved) (simp add: readlink_return_def)
  have c: "cstring (rp @ n) = rp @ n"
    by (rule cstring_id) (use assms(1,4) in auto)
  show ?thesis
    unfolding entry_outcome_fits [OF example_name [OF assms(1)] assms(2)]
    using assms(3) by (simp add: rep c)
qed

lemma example_modes:
  "st_mode (dirload_stat e (example_entry n 0x80)) = 0x8180"
  "st_mode (dirload_stat e (example_entry n 0x10)) = 0x4180"
  "st_mode (dirload_stat e (example_entry n 0x410)) = 0x4180"
  by (simp_all add: dirload_stat_def FILE_ATTRIBUTE_DIRECTORY_def FILE_ATTRIBUTE_READONLY_def
        S_IREAD_def S_IFDIR_def S_IFREG_def S_IWRITE_def)

lemma example_finish:
  "dirload_finish \<lparr>ps_st = dirload_stat e (example_entry n 0x80), ps_path_len = k, ps_path = p\<rparr> =
     Inserted \<lparr>ps_st = dirload_stat e (example_entry n 0x80), ps_path_len = k, ps_path = p\<rparr>"
  "dirload_finish \<lparr>ps_st = dirload_stat e (example_entry n 0x10), ps_path_len = k, ps_path = p\<rparr> =
     Inserted \<lparr>ps_st = dirload_stat e (example_entry n 0x10), ps_path_len = k + 1, ps_path = p @ ''/''\<rparr>"
  "dirload_finish \<lparr>ps_st = dirload_stat e (example_entry n 0x410), ps_path_len = k, ps_path = p\<rparr> =
     Inserted \<lparr>ps_st = dirload_stat e (example_entry n 0x410), ps_path_len = k + 1, ps_path = p @ ''/''\<rparr>"
  by (simp_all add: dirload_finish_def example_modes S_ISDIR_def S_ISREG_def S_IFMT_def
        S_IFDIR_def S_IFREG_def)

text \<open>A directory with one entry, \<^verbatim>\<open>x\<close>, a directory that is a reparse point, on a
  platform where no reparse point can be opened.\<close>

definition junction_listing :: "WIN32_FIND_DATAW list" where
  "junction_listing = [example_entry ''x'' 0x410]"

lemma junction_entry:
  "entry_outcome_of (example_env fs) [] fl None None (example_entry ''x'' 0x410) =
     Inserted \<lparr>ps_st = dirload_stat (example_env fs) (example_entry ''x'' 0x410),
               ps_path_len = 2, ps_path = ''x/''\<rparr>"
  by (subst example_entry_outcome)
     (simp_all add: PATH__MAX_UNC_LEN_def example_not_dot dirload_in_range_def example_finish)

text \<open>Claim C3 as stated fails: the entry \<^verbatim>\<open>x\<close> has the reparse attribute and its
  resolution fails, yet the listing returns 0 and holds the entry, as the
  directory its native attributes describe.\<close>

theorem dirload_unresolved_reparse_counterexample:
  "dwFileAttributes (example_entry ''x'' 0x410) AND FILE_ATTRIBUTE_REPARSE_POINT \<noteq> 0 \<and>
   readlink_return (git_win32_path_readlink_w (example_env junction_listing)
     (cFileName (example_entry ''x'' 0x410))) < 0 \<and>
   git_win32_path_dirload_with_stat (example_env junction_listing) ''dir/'' 4 0 None None [] =
     Returned 0 [\<lparr>ps_st = dirload_stat (example_env junction_listing) (example_entry ''x'' 0x410),
                  ps_path_len = 2, ps_path = ''x/''\<rparr>] \<and>
   S_ISDIR (st_mode (dirload_stat (example_env junction_listing) (example_entry ''x'' 0x410)))"
proof -
  have 1: "dwFileAttributes (example_entry ''x'' 0x410) AND FILE_ATTRIBUTE_REPARSE_POINT \<noteq> 0"
    by (simp add: FILE_ATTRIBUTE_REPARSE_POINT_def)
  have 2: "readlink_return (git_win32_path_readlink_w (example_env junction_listing)
     (cFileName (example_entry ''x'' 0x410))) < 0"
    by (simp add: readlink_return_def)
  have 3: "git_win32_path_dirload_with_stat (example_env junction_listing) ''dir/'' 4 0 None None [] =
     Returned 0 [\<lparr>ps_st = dirload_stat (example_env junction_listing) (example_entry ''x'' 0x410),
                  ps_path_len = 2, ps_path = ''x/''\<rparr>]"
    unfolding junction_listing_def
    by (subst example_listing)
       (simp_all add: PATH__MAX_UNC_LEN_def junction_entry git_vector_sort_def example_fits)
  have 4: "S_ISDIR (st_mode (dirload_stat (example_env junction_listing) (example_entry ''x'' 0x410)))"
    by (simp add: example_modes S_ISDIR_def S_IFMT_def S_IFDIR_def)
  from 1 2 3 4 show ?thesis by blast
qed


text \<open>Claim C3, as amended, at the same listing: the call returns what it returns
  for the directory \<^verbatim>\<open>x\<close> without the reparse attribute, which is 0 with that
  directory.\<close>

theorem dirload_unresolved_reparse_kept_witness:
  "git_win32_path_dirload_with_stat (example_env junction_listing) ''dir/'' 4 0 None None [] =
     git_win32_path_dirload_with_stat
       ((example_env junction_listing)\<lparr>FindFirstFileExW :=
           \<lambda>p. Some (unresolved_as_plain (example_env junction_listing)
                       (example_entry ''x'' 0x410),
                     map (unresolved_as_plain (example_env junction_listing)) [],
                     NoMoreFiles)\<rparr>)
       ''dir/'' 4 0 None None [] \<and>
   git_win32_path_dirload_with_stat (example_env junction_listing) ''dir/'' 4 0 None None [] =
     Returned 0 (git_vector_sort
       ([] @ inserted_entries (example_env junction_listing) (drop 4 ''dir/'') 0 None None
               (map without_reparse [example_entry ''x'' 0x410]))) \<and>
   unresolved_as_plain (example_env junction_listing) (example_entry ''x'' 0x410) =
     without_reparse (example_entry ''x'' 0x410) \<and>
   dwFileAttributes (without_reparse (example_entry ''x'' 0x410)) = 0x10"
proof -
  let ?e = "example_env junction_listing" and ?x = "example_entry ''x'' 0x410"
  have 1: "git_win32__findfirstfile_filter ?e ''dir/'' = Some (L ''dir/'' @ L ''*'')" by simp
  have 2: "FindFirstFileExW ?e (L ''dir/'' @ L ''*'') = Some (?x, [], NoMoreFiles)"
    by (simp add: junction_listing_def)
  have 3: "4 \<le> length ''dir/'' \<and> NoMoreFiles = NoMoreFiles \<and>
          (\<forall>d \<in> set [?x]. name_fits ?e (length ''dir/'' - 4) d) \<and>
          (\<forall>d \<in> set [?x]. dwFileAttributes d AND FILE_ATTRIBUTE_REPARSE_POINT \<noteq> 0 \<longrightarrow>
             readlink_return (git_win32_path_readlink_w ?e (cFileName d)) < 0)"
    by (simp add: example_fits PATH__MAX_UNC_LEN_def readlink_return_def)
  have 4: "unresolved_as_plain ?e ?x = without_reparse ?x"
    by (simp add: unresolved_as_plain_def readlink_return_def FILE_ATTRIBUTE_REPARSE_POINT_def)
  have 5: "dwFileAttributes (without_reparse ?x) = 0x10"
    by (simp add: without_reparse_def FILE_ATTRIBUTE_REPARSE_POINT_def)
  note T = dirload_unresolved_reparse_kept [OF 1 2, of 4 0 None None "[]"]
  from T 3 4 5 show ?thesis by blast
qed

text \<open>A mount point whose target is a volume.\<close>

definition volume_env :: env where
  "volume_env = (example_env [])\<lparr>
     CreateFileW := (\<lambda>p. Some 7),
     DeviceIoControl := (\<lambda>h. Some \<lparr>ReparseTag = IO_REPARSE_TAG_MOUNT_POINT,
        SymbolicLinkReparseBuffer =
          \<lparr>SubstituteNameOffset = 0, SubstituteNameLength = 0, PathBuffer = []\<rparr>,
        MountPointReparseBuffer =
          \<lparr>SubstituteNameOffset = 0, SubstituteNameLength = 26,
           PathBuffer = VOLUME_lit @ L ''1}'' @ [NUL]\<rparr>\<rparr>)\<rparr>"

text \<open>Claim C4 at a mount point whose target is \<^verbatim>\<open>\??\Volume{1}\<close>.\<close>

theorem readlink_rejects_volume_mount_witness:
  "git_win32_path_readlink_w volume_env (L ''mnt'') = Unresolved (Some EINVAL) \<and>
   readlink_return (git_win32_path_readlink_w volume_env (L ''mnt'')) < 0"
proof -
  have 1: "CreateFileW volume_env (L ''mnt'') = Some 7" by (simp add: volume_env_def)
  have 2: "DeviceIoControl volume_env 7 = Some \<lparr>ReparseTag = IO_REPARSE_TAG_MOUNT_POINT,
        SymbolicLinkReparseBuffer =
          \<lparr>SubstituteNameOffset = 0, SubstituteNameLength = 0, PathBuffer = []\<rparr>,
        MountPointReparseBuffer =
          \<lparr>SubstituteNameOffset = 0, SubstituteNameLength = 26,
           PathBuffer = VOLUME_lit @ L ''1}'' @ [NUL]\<rparr>\<rparr>" by (simp add: volume_env_def)
  have 3: "reparse_target \<lparr>ReparseTag = IO_REPARSE_TAG_MOUNT_POINT,
        SymbolicLinkReparseBuffer =
          \<lparr>SubstituteNameOffset = 0, SubstituteNameLength = 0, PathBuffer = []\<rparr>,
        MountPointReparseBuffer =
          \<lparr>SubstituteNameOffset = 0, SubstituteNameLength = 26,
           PathBuffer = VOLUME_lit @ L ''1}'' @ [NUL]\<rparr>\<rparr> =
        Some (VOLUME_lit @ L ''1}'' @ [NUL], 0, 13)"
    by (simp add: reparse_target_def IO_REPARSE_TAG_MOUNT_POINT_def IO_REPARSE_TAG_SYMLINK_def)
  have 4: "take 11 (take 13 (drop 0 (VOLUME_lit @ L ''1}'' @ [NUL]))) = VOLUME_lit"
    by (simp add: length_VOLUME_lit)
  from readlink_rejects_volume_mount [OF 1 2 3 4] show ?thesis .
qed

text \<open>The five files of claim C5, delivered out of order.\<close>

definition five_listing :: "WIN32_FIND_DATAW list" where
  "five_listing = [example_entry ''e'' 0x80, example_entry ''c'' 0x80, example_entry ''a'' 0x80,
                   example_entry ''d'' 0x80, example_entry ''b'' 0x80]"

text \<open>Claim C5 at the enumeration order \<^verbatim>\<open>e\<close>, \<^verbatim>\<open>c\<close>, \<^verbatim>\<open>a\<close>, \<^verbatim>\<open>d\<close>, \<^verbatim>\<open>b\<close>.\<close>

theorem dirload_range_example_witness:
  "\<exists>cs. git_win32_path_dirload_with_stat (example_env five_listing) ''/r/'' 3 0
           (Some ''b'') (Some ''d'') [] = Returned 0 cs \<and>
        map ps_path cs = [''b'', ''c'', ''d'']"
proof -
  let ?e = "example_env five_listing"
  have 1: "git_win32__findfirstfile_filter ?e ''/r/'' = Some (L ''/r/'' @ L ''*'')" by simp
  have 2: "FindFirstFileExW ?e (L ''/r/'' @ L ''*'') =
             Some (example_entry ''e'' 0x80,
                   [example_entry ''c'' 0x80, example_entry ''a'' 0x80,
                    example_entry ''d'' 0x80, example_entry ''b'' 0x80], NoMoreFiles)"
    by (simp add: five_listing_def)
  have 3: "distinct (map (\<lambda>d. c_str (cFileName d))
             (example_entry ''e'' 0x80 #
                   [example_entry ''c'' 0x80, example_entry ''a'' 0x80,
                    example_entry ''d'' 0x80, example_entry ''b'' 0x80]))"
    by (simp add: c_str_L L_inject)
  have 4: "set (map (\<lambda>d. c_str (cFileName d))
             (example_entry ''e'' 0x80 #
                   [example_entry ''c'' 0x80, example_entry ''a'' 0x80,
                    example_entry ''d'' 0x80, example_entry ''b'' 0x80])) =
           {L ''a'', L ''b'', L ''c'', L ''d'', L ''e''}"
    by (auto simp: c_str_L)
  have 5: "\<forall>n \<in> {''a'', ''b'', ''c'', ''d'', ''e''}. wide_to_utf8 ?e (L n) = Some n"
    by (simp add: example_wide_to_utf8)
  have 6: "\<forall>d \<in> set (example_entry ''e'' 0x80 #
                   [example_entry ''c'' 0x80, example_entry ''a'' 0x80,
                    example_entry ''d'' 0x80, example_entry ''b'' 0x80]).
        dwFileAttributes d AND FILE_ATTRIBUTE_REPARSE_POINT = 0 \<and>
        dwFileAttributes d AND FILE_ATTRIBUTE_DIRECTORY = 0"
    by (simp add: FILE_ATTRIBUTE_REPARSE_POINT_def FILE_ATTRIBUTE_DIRECTORY_def)
  from dirload_range_example [OF 1 2 3 4 5 6, of 0] show ?thesis
    by (simp add: numeral_3_eq_3)
qed


text \<open>A directory \<^verbatim>\<open>d//\<close> of the repository with one plain file, whose name is a lone
  surrogate: a name that does not convert.\<close>

definition surrogate_entry :: WIN32_FIND_DATAW where
  "surrogate_entry = (example_entry [] 0x80)\<lparr>cFileName := [0xD800, NUL]\<rparr>"

definition surrogate_env :: env where
  "surrogate_env = example_env [surrogate_entry]"

lemma surrogate_work_path:
  "dirload_work_path surrogate_env 3 ''d//'' surrogate_entry =
     Some ([CHR ''d'', CHR ''/'', CHR 0x00], 2)"
proof -
  have n: "c_str (cFileName surrogate_entry) = [0xD800]"
    by (simp add: surrogate_entry_def c_str_def NUL_def)
  have u: "git__utf16_to_8 surrogate_env k (cFileName surrogate_entry) = (- 1, None)" for k
    by (simp add: git__utf16_to_8_def n surrogate_env_def example_env_def)
  have m: "(SIZE_MAX + 3) mod Suc SIZE_MAX = 2" by (simp add: SIZE_MAX_def)
  show ?thesis
    unfolding dirload_work_path_def u Let_def
    by (simp add: m PATH__MAX_UNC_LEN_def)
qed

text \<open>Claim C8 at this listing: the conversion fails, its result is used all the
  same, and the file is inserted with the path \<^verbatim>\<open>d/\<close>, which ends in a
  separator.\<close>

theorem dirload_directory_suffix_unconverted:
  "git_win32_path_dirload_with_stat surrogate_env ''/r/d//'' 3 0 None None [] =
     Returned 0 [\<lparr>ps_st = dirload_stat surrogate_env surrogate_entry,
                  ps_path_len = 2, ps_path = ''d/''\<rparr>] \<and>
   \<not> S_ISDIR (st_mode (dirload_stat surrogate_env surrogate_entry)) \<and>
   is_dirsep_char (last ''d/'')"
proof -
  have nd: "\<not> git_path_is_dot_or_dotdotW (cFileName surrogate_entry)"
    by (simp add: git_path_is_dot_or_dotdotW_def surrogate_entry_def c_str_def NUL_def DOT_def)
  have a: "dwFileAttributes surrogate_entry = 0x80"
    by (simp add: surrogate_entry_def)
  have md: "st_mode (dirload_stat surrogate_env surrogate_entry) = 0x8180"
    by (simp add: dirload_stat_def a FILE_ATTRIBUTE_DIRECTORY_def FILE_ATTRIBUTE_READONLY_def
        S_IREAD_def S_IFDIR_def S_IFREG_def S_IWRITE_def)
  have rep: "dirload_reparse surrogate_env surrogate_entry ps = Some ps" for ps
    by (rule dirload_reparse_unresolved) (simp add: a FILE_ATTRIBUTE_REPARSE_POINT_def)
  have fin: "dirload_finish \<lparr>ps_st = dirload_stat surrogate_env surrogate_entry,
                ps_path_len = 2, ps_path = ''d/''\<rparr> =
             Inserted \<lparr>ps_st = dirload_stat surrogate_env surrogate_entry,
                ps_path_len = 2, ps_path = ''d/''\<rparr>"
    by (simp add: dirload_finish_def md S_ISDIR_def S_ISREG_def S_IFMT_def S_IFDIR_def S_IFREG_def)
  have en: "dirload_entry surrogate_env 3 ''d//'' 0 None None surrogate_entry =
              (Inserted \<lparr>ps_st = dirload_stat surrogate_env surrogate_entry,
                ps_path_len = 2, ps_path = ''d/''\<rparr>, [CHR ''d'', CHR ''/'', CHR 0x00])"
    by (simp add: dirload_entry_def nd surrogate_work_path dirload_in_range_def rep fin)
  have op: "git_win32__findfirstfile_filter surrogate_env ''/r/d//'' = Some (L ''/r/d//'' @ L ''*'')"
    "FindFirstFileExW surrogate_env (L ''/r/d//'' @ L ''*'') =
       Some (surrogate_entry, [], NoMoreFiles)"
    by (simp_all add: surrogate_env_def)
  have 1: "git_win32_path_dirload_with_stat surrogate_env ''/r/d//'' 3 0 None None [] =
     Returned 0 [\<lparr>ps_st = dirload_stat surrogate_env surrogate_entry,
                  ps_path_len = 2, ps_path = ''d/''\<rparr>]"
    by (simp add: git_win32_path_dirload_with_stat_def op PATH__MAX_UNC_LEN_def
          en [unfolded numeral_3_eq_3] git_vector_sort_def)
  have 2: "\<not> S_ISDIR (st_mode (dirload_stat surrogate_env surrogate_entry))"
    by (simp add: md S_ISDIR_def S_IFMT_def S_IFDIR_def)
  have 3: "is_dirsep_char (last ''d/'')" by (simp add: is_dirsep_char_def)
  from 1 2 3 show ?thesis by blast
qed

text \<open>The two entries of claim C10.\<close>

definition edge_listing :: "WIN32_FIND_DATAW list" where
  "edge_listing = [example_entry ''b'' 0x80, example_entry ''dz'' 0x80]"

lemma edge_in_range:
  "dirload_in_range 0 None (Some ''d'') ''b'' (length ''b'')"
  "dirload_in_range 0 (Some ''bb'') None ''dz'' (length ''dz'')"
  by (simp_all add: dirload_in_range_def numeral_2_eq_2)

lemma edge_entries:
  "entry_outcome_of (example_env fs) [] 0 (Some ''bb'') (Some ''d'') (example_entry ''b'' 0x80) =
     Inserted \<lparr>ps_st = dirload_stat (example_env fs) (example_entry ''b'' 0x80),
               ps_path_len = 1, ps_path = ''b''\<rparr>"
  "entry_outcome_of (example_env fs) [] 0 (Some ''bb'') (Some ''d'') (example_entry ''dz'' 0x80) =
     Inserted \<lparr>ps_st = dirload_stat (example_env fs) (example_entry ''dz'' 0x80),
               ps_path_len = 2, ps_path = ''dz''\<rparr>"
  by (subst example_entry_outcome;
      simp add: PATH__MAX_UNC_LEN_def example_not_dot dirload_in_range_def example_finish
        numeral_2_eq_2)+

text \<open>Claim C10 at the bounds \<^verbatim>\<open>bb\<close> and \<^verbatim>\<open>d\<close>: both \<^verbatim>\<open>b\<close> and \<^verbatim>\<open>dz\<close> are listed.\<close>

theorem dirload_range_compares_common_length_witness:
  "git_win32_path_dirload_with_stat (example_env edge_listing) ''/r/'' 3 0
      (Some ''bb'') (Some ''d'') [] =
     Returned 0 [\<lparr>ps_st = dirload_stat (example_env edge_listing) (example_entry ''b'' 0x80),
                  ps_path_len = 1, ps_path = ''b''\<rparr>,
                 \<lparr>ps_st = dirload_stat (example_env edge_listing) (example_entry ''dz'' 0x80),
                  ps_path_len = 2, ps_path = ''dz''\<rparr>] \<and>
   strict_prefix ''b'' ''bb'' \<and> ''b'' < ''bb'' \<and> strict_prefix ''d'' ''dz'' \<and> ''d'' < ''dz''"
proof -
  let ?e = "example_env edge_listing"
  let ?cs = "[\<lparr>ps_st = dirload_stat ?e (example_entry ''b'' 0x80),
                  ps_path_len = 1, ps_path = ''b''\<rparr>,
                 \<lparr>ps_st = dirload_stat ?e (example_entry ''dz'' 0x80),
                  ps_path_len = 2, ps_path = ''dz''\<rparr>]"
  have res: "git_win32_path_dirload_with_stat ?e ''/r/'' 3 0 (Some ''bb'') (Some ''d'') [] =
          Returned 0 ?cs"
    unfolding edge_listing_def
    by (subst example_listing)
       (simp_all add: PATH__MAX_UNC_LEN_def edge_entries git_vector_sort_def example_fits
          cstring_def)
  have 1: "git_win32__findfirstfile_filter ?e ''/r/'' = Some (L ''/r/'' @ L ''*'')" by simp
  have 2: "FindFirstFileExW ?e (L ''/r/'' @ L ''*'') =
             Some (example_entry ''b'' 0x80, [example_entry ''dz'' 0x80], NoMoreFiles)"
    by (simp add: edge_listing_def)
  have fit: "\<forall>d' \<in> set (example_entry ''b'' 0x80 # [example_entry ''dz'' 0x80]).
               name_fits ?e (length ''/r/'' - 3) d'"
    by (simp add: example_fits PATH__MAX_UNC_LEN_def)
  have b: "example_entry ''b'' 0x80 \<in> set (example_entry ''b'' 0x80 # [example_entry ''dz'' 0x80])"
    "\<not> git_path_is_dot_or_dotdotW (cFileName (example_entry ''b'' 0x80))"
    "dwFileAttributes (example_entry ''b'' 0x80) AND FILE_ATTRIBUTE_REPARSE_POINT = 0"
    "wide_to_utf8 ?e (c_str (cFileName (example_entry ''b'' 0x80))) = Some ''b''"
    "''b'' = drop 3 ''/r/'' @ ''b''"
    "CHR 0x00 \<notin> set ''b''"
    by (simp_all add: example_not_dot FILE_ATTRIBUTE_REPARSE_POINT_def c_str_L
        example_wide_to_utf8)
  have pb: "strict_prefix ''b'' ''bb''" by simp
  have ob: "(Some ''bb'' = Some ''bb'' \<and> strict_prefix ''b'' ''bb'' \<and>
                 dirload_in_range 0 None (Some ''d'') ''b'' (length ''b'')) \<or>
              (Some ''d'' = Some ''bb'' \<and> strict_prefix ''bb'' ''b'' \<and>
                 dirload_in_range 0 (Some ''bb'') None ''b'' (length ''b''))"
    using edge_in_range(1) pb by blast
  have dz: "example_entry ''dz'' 0x80 \<in> set (example_entry ''b'' 0x80 # [example_entry ''dz'' 0x80])"
    "\<not> git_path_is_dot_or_dotdotW (cFileName (example_entry ''dz'' 0x80))"
    "dwFileAttributes (example_entry ''dz'' 0x80) AND FILE_ATTRIBUTE_REPARSE_POINT = 0"
    "wide_to_utf8 ?e (c_str (cFileName (example_entry ''dz'' 0x80))) = Some ''dz''"
    "''dz'' = drop 3 ''/r/'' @ ''dz''"
    "CHR 0x00 \<notin> set ''dz''"
    by (simp_all add: example_not_dot FILE_ATTRIBUTE_REPARSE_POINT_def c_str_L
        example_wide_to_utf8)
  have pd: "strict_prefix ''d'' ''dz''" by simp
  have od: "(Some ''bb'' = Some ''d'' \<and> strict_prefix ''dz'' ''d'' \<and>
                 dirload_in_range 0 None (Some ''d'') ''dz'' (length ''dz'')) \<or>
              (Some ''d'' = Some ''d'' \<and> strict_prefix ''d'' ''dz'' \<and>
                 dirload_in_range 0 (Some ''bb'') None ''dz'' (length ''dz''))"
    using edge_in_range(2) pd by blast
  from dirload_range_compares_common_length [OF res 1 2 fit b ob]
  have lb: "''b'' < ''bb''" by simp
  from dirload_range_compares_common_length [OF res 1 2 fit dz od]
  have ld: "''d'' < ''dz''" by simp
  from res pb lb pd ld show ?thesis by blast
qed


end
